theory Spec2Isabelle
  imports
    Complex_Main
    "HOL-Library.AList"
    "HOL-Library.Sublist"
    "HOL-Library.Multiset"
    "HOL-Library.Char_ord"
    "HOL-Library.List_Lexorder"
begin

section \<open>Strings\<close>

text \<open>
  JavaScript strings are modelled as HOL strings (lists of 8-bit characters). The
  character classes and case mappings are those of ASCII: \<open>\s\<close> and \<open>trim\<close> know the six
  ASCII white-space characters, \<open>\w\<close> is \<open>[A-Za-z0-9_]\<close> (as in JavaScript without the
  \<open>u\<close> flag), \<open>toUpperCase\<close>/\<open>toLowerCase\<close> map the 26 letters and leave every other
  character alone. A character outside ASCII is the sequence of its UTF-8 bytes.
\<close>

definition isSpace :: "char \<Rightarrow> bool" where
  "isSpace c = (c \<in> set [CHR '' '', CHR 0x09, CHR 0x0A, CHR 0x0B, CHR 0x0C, CHR 0x0D])"

definition isDigit :: "char \<Rightarrow> bool" where
  "isDigit c = (c \<in> set ''0123456789'')"

definition isUpper :: "char \<Rightarrow> bool" where
  "isUpper c = (c \<in> set ''ABCDEFGHIJKLMNOPQRSTUVWXYZ'')"

definition isLower :: "char \<Rightarrow> bool" where
  "isLower c = (c \<in> set ''abcdefghijklmnopqrstuvwxyz'')"

text \<open>\<open>\w\<close>: letters, digits and the underscore.\<close>

definition isWordChar :: "char \<Rightarrow> bool" where
  "isWordChar c = (isUpper c \<or> isLower c \<or> isDigit c \<or> c = CHR ''_'')"

definition upperChar :: "char \<Rightarrow> char" where
  "upperChar c =
     (case map_of (zip ''abcdefghijklmnopqrstuvwxyz'' ''ABCDEFGHIJKLMNOPQRSTUVWXYZ'') c of
        Some d \<Rightarrow> d | None \<Rightarrow> c)"

definition lowerChar :: "char \<Rightarrow> char" where
  "lowerChar c =
     (case map_of (zip ''ABCDEFGHIJKLMNOPQRSTUVWXYZ'' ''abcdefghijklmnopqrstuvwxyz'') c of
        Some d \<Rightarrow> d | None \<Rightarrow> c)"

definition toUpperCase :: "string \<Rightarrow> string" where
  "toUpperCase s = map upperChar s"

definition toLowerCase :: "string \<Rightarrow> string" where
  "toLowerCase s = map lowerChar s"

text \<open>\<open>String.prototype.trim\<close>: white space is removed at both ends.\<close>

definition trim :: "string \<Rightarrow> string" where
  "trim s = rev (dropWhile isSpace (rev (dropWhile isSpace s)))"

text \<open>\<open>hay.includes(needle)\<close>: the needle occurs at some position of the hay.\<close>

fun includesStr :: "string \<Rightarrow> string \<Rightarrow> bool" where
  "includesStr [] needle = (needle = [])"
| "includesStr (c # cs) needle = (prefix needle (c # cs) \<or> includesStr cs needle)"

text \<open>
  \<open>s.replace(/[class]+/g, rep)\<close>: every maximal run of characters of the class becomes
  one copy of \<open>rep\<close>. The flag says that the character before was of the class, so that
  the run it belongs to is replaced already.
\<close>

fun replaceRunsFrom :: "(char \<Rightarrow> bool) \<Rightarrow> string \<Rightarrow> bool \<Rightarrow> string \<Rightarrow> string" where
  "replaceRunsFrom P rep inRun [] = []"
| "replaceRunsFrom P rep inRun (c # cs) =
     (if P c then (if inRun then replaceRunsFrom P rep True cs
                   else rep @ replaceRunsFrom P rep True cs)
      else c # replaceRunsFrom P rep False cs)"

definition replaceRuns :: "(char \<Rightarrow> bool) \<Rightarrow> string \<Rightarrow> string \<Rightarrow> string" where
  "replaceRuns P rep s = replaceRunsFrom P rep False s"

text \<open>
  \<open>s.split(/[class]+/)\<close>: the pieces between the maximal runs of the class; a run at
  the start or at the end of the string leaves an empty piece there, and the empty
  string splits into one empty piece. \<open>acc\<close> holds the current piece, reversed.
\<close>

fun splitRunsFrom :: "(char \<Rightarrow> bool) \<Rightarrow> bool \<Rightarrow> string \<Rightarrow> string \<Rightarrow> string list" where
  "splitRunsFrom P inRun acc [] = [rev acc]"
| "splitRunsFrom P inRun acc (c # cs) =
     (if P c then (if inRun then splitRunsFrom P True [] cs
                   else rev acc # splitRunsFrom P True [] cs)
      else splitRunsFrom P False (c # acc) cs)"

definition splitRuns :: "(char \<Rightarrow> bool) \<Rightarrow> string \<Rightarrow> string list" where
  "splitRuns P s = splitRunsFrom P False [] s"

text \<open>
  \<open>s.match(/rx/g)\<close>: the matches of a pattern from left to right, each search starting
  where the match before ended. \<open>rx\<close> gives the text the pattern matches at the start
  of a string, if it matches there; \<open>k\<close> counts the characters still covered by the
  match before.
\<close>

fun matchAllFrom :: "(string \<Rightarrow> string option) \<Rightarrow> nat \<Rightarrow> string \<Rightarrow> string list" where
  "matchAllFrom rx k [] = []"
| "matchAllFrom rx (Suc k) (c # cs) = matchAllFrom rx k cs"
| "matchAllFrom rx 0 (c # cs) =
     (case rx (c # cs) of
        Some m \<Rightarrow> m # matchAllFrom rx (length m - 1) cs
      | None \<Rightarrow> matchAllFrom rx 0 cs)"

definition matchAll :: "(string \<Rightarrow> string option) \<Rightarrow> string \<Rightarrow> string list" where
  "matchAll rx s = matchAllFrom rx 0 s"

text \<open>\<open>xs.join(sep)\<close>.\<close>

fun join :: "string \<Rightarrow> string list \<Rightarrow> string" where
  "join sep [] = []"
| "join sep [x] = x"
| "join sep (x # y # ys) = x @ sep @ join sep (y # ys)"

text \<open>\<open>x || ''\<close> on an optional string.\<close>

definition orEmpty :: "string option \<Rightarrow> string" where
  "orEmpty x = (case x of None \<Rightarrow> [] | Some s \<Rightarrow> s)"

text \<open>\<open>!x\<close> on an optional string: absent and the empty string are falsy.\<close>

definition falsy :: "string option \<Rightarrow> bool" where
  "falsy x = (x = None \<or> x = Some [])"

section \<open>The structural extractor (src/scrape.js)\<close>

subsection \<open>Regular expressions\<close>

text \<open>
  \<open>s.match(/rx/)\<close> and \<open>/rx/.test(s)\<close>: the leftmost match. \<open>rx\<close> gives what the pattern
  matches at the start of a string.
\<close>

fun firstMatch :: "(string \<Rightarrow> 'a option) \<Rightarrow> string \<Rightarrow> 'a option" where
  "firstMatch rx [] = rx []"
| "firstMatch rx (c # cs) = (case rx (c # cs) of Some m \<Rightarrow> Some m | None \<Rightarrow> firstMatch rx cs)"

text \<open>
  The same for a pattern that looks at the character before the match (\<open>\b\<close>):
  \<open>prev\<close> is that character, absent at the start of the string.
\<close>

fun firstMatchAfter :: "(char option \<Rightarrow> string \<Rightarrow> 'a option) \<Rightarrow> char option \<Rightarrow> string \<Rightarrow> 'a option" where
  "firstMatchAfter rx prev [] = rx prev []"
| "firstMatchAfter rx prev (c # cs) =
     (case rx prev (c # cs) of Some m \<Rightarrow> Some m | None \<Rightarrow> firstMatchAfter rx (Some c) cs)"

text \<open>
  \<open>s.replace(/rx/g, ...)\<close>: every match from left to right is replaced, each search
  starting where the match before ended. \<open>rx\<close> gives the length of the match at the
  start of a string and its replacement; \<open>k\<close> counts the characters still covered by the
  match before. The patterns of this program match no empty string.
\<close>

fun replaceAllFrom :: "(char option \<Rightarrow> string \<Rightarrow> (nat \<times> string) option) \<Rightarrow> char option \<Rightarrow> nat
    \<Rightarrow> string \<Rightarrow> string" where
  "replaceAllFrom rx prev k [] = []"
| "replaceAllFrom rx prev (Suc k) (c # cs) = replaceAllFrom rx (Some c) k cs"
| "replaceAllFrom rx prev 0 (c # cs) =
     (case rx prev (c # cs) of
        Some (n, rep) \<Rightarrow> rep @ replaceAllFrom rx (Some c) (n - 1) cs
      | None \<Rightarrow> c # replaceAllFrom rx (Some c) 0 cs)"

definition replaceAll :: "(char option \<Rightarrow> string \<Rightarrow> (nat \<times> string) option) \<Rightarrow> string \<Rightarrow> string" where
  "replaceAll rx s = replaceAllFrom rx None 0 s"

text \<open>\<open>s.replace(needle, rep)\<close> with a string for a pattern: the first occurrence.\<close>

fun replaceFirst :: "string \<Rightarrow> string \<Rightarrow> string \<Rightarrow> string" where
  "replaceFirst [] needle rep = (if needle = [] then rep else [])"
| "replaceFirst (c # cs) needle rep =
     (if prefix needle (c # cs) then rep @ drop (length needle) (c # cs)
      else c # replaceFirst cs needle rep)"

text \<open>\<open>/^\d+$/.test(s)\<close>.\<close>

definition allDigits :: "string \<Rightarrow> bool" where
  "allDigits s = (s \<noteq> [] \<and> list_all isDigit s)"

text \<open>\<open>x || null\<close> on a string.\<close>

definition orNull :: "string \<Rightarrow> string option" where
  "orNull s = (if s = [] then None else Some s)"

text \<open>
  \<open>codeRegex\<close>, \<open>/[A-Z]{2,}\s*-?\s*\d{2,4}/\<close>, at the start of a string: the capital
  letters (at least two), white space, a hyphen if there is one, white space, up to
  four digits (at least two). Nothing a shorter reading of a greedy part leaves behind
  can start the part after it, so the greedy reading is the only one that can match.
\<close>

definition codeRegex :: "string \<Rightarrow> string option" where
  "codeRegex s =
     (let letters = takeWhile isUpper s;
          r1 = dropWhile isUpper s;
          ws1 = takeWhile isSpace r1;
          r2 = dropWhile isSpace r1;
          hyphen = (case r2 of [] \<Rightarrow> [] | c # _ \<Rightarrow> if c = CHR ''-'' then [c] else []);
          r3 = drop (length hyphen) r2;
          ws2 = takeWhile isSpace r3;
          r4 = dropWhile isSpace r3;
          digits = take 4 (takeWhile isDigit r4)
      in if 2 \<le> length letters \<and> 2 \<le> length digits
         then Some (letters @ ws1 @ hyphen @ ws2 @ digits)
         else None)"

text \<open>
  \<open>creditsRegex\<close>, \<open>/(?:\b|\()([0-9]+(?:\.[0-9]+)?)(?:\s*Cr|\s*credit|\)|$)/i\<close>. The
  number and what follows it, read from the first digit: the result is the text matched
  from there and the number (group 1).
\<close>

definition creditsNumber :: "string \<Rightarrow> (string \<times> string) option" where
  "creditsNumber s =
     (let whole = takeWhile isDigit s;
          r1 = dropWhile isDigit s;
          fraction = (case r1 of [] \<Rightarrow> []
                      | c # r \<Rightarrow> if c = CHR ''.'' \<and> takeWhile isDigit r \<noteq> []
                                 then c # takeWhile isDigit r else []);
          r2 = drop (length fraction) r1;
          number = whole @ fraction;
          ws = takeWhile isSpace r2;
          r3 = dropWhile isSpace r2
      in if whole = [] then None
         else if toLowerCase (take 2 r3) = ''cr'' then Some (number @ ws @ take 2 r3, number)
         else if toLowerCase (take 6 r3) = ''credit'' then Some (number @ ws @ take 6 r3, number)
         else if take 1 r2 = '')'' then Some (number @ '')'', number)
         else if r2 = [] then Some (number, number)
         else None)"

text \<open>
  The pattern at one position: a word boundary before a digit (the character before is
  no word character), or an opening parenthesis.
\<close>

definition creditsRegex :: "char option \<Rightarrow> string \<Rightarrow> (string \<times> string) option" where
  "creditsRegex prev s =
     (case s of
        [] \<Rightarrow> None
      | c # cs \<Rightarrow>
          if isDigit c \<and> \<not> (case prev of None \<Rightarrow> False | Some p \<Rightarrow> isWordChar p)
          then creditsNumber (c # cs)
          else if c = CHR ''(''
          then (case creditsNumber cs of None \<Rightarrow> None | Some (m, g) \<Rightarrow> Some (c # m, g))
          else None)"

subsection \<open>Rows and lines\<close>

text \<open>
  The \<open>credits\<close> of a parsed course are a string on the positional path and a number
  on the two fallback paths. \<open>CreditNumber t\<close> is the number \<open>Number(t)\<close>, kept as the
  text it is read from.
\<close>

datatype credit = CreditString string | CreditNumber string

record parsedCourse =
  serial :: "string option"
  code :: "string option"
  title :: "string option"
  credits :: "credit option"
  prerequisite :: "string option"

text \<open>
  The loop of the token-scan fallback, with its variables \<open>serial\<close>, \<open>code\<close>, \<open>credits\<close>
  and \<open>remaining\<close>.
\<close>

fun scanCells :: "string list \<Rightarrow> string option \<times> string option \<times> string option \<times> string list
    \<Rightarrow> string option \<times> string option \<times> string option \<times> string list" where
  "scanCells [] st = st"
| "scanCells (c # cs) (serial', code', credits', remaining) =
     (let t = trim c in
      if t = [] then scanCells cs (serial', code', credits', remaining)
      else if falsy serial' \<and> allDigits t then scanCells cs (Some t, code', credits', remaining)
      else if falsy code' \<and> firstMatch codeRegex t \<noteq> None
      then scanCells cs
             (serial',
              Some (trim (replaceRuns isSpace '' '' (orEmpty (firstMatch codeRegex t)))),
              credits', remaining)
      else if falsy credits' \<and> firstMatchAfter creditsRegex None t \<noteq> None
      then scanCells cs
             (serial', code', map_option snd (firstMatchAfter creditsRegex None t), remaining)
      else scanCells cs (serial', code', credits', remaining @ [t]))"

definition parseCourseFromCells :: "string list \<Rightarrow> parsedCourse" where
  "parseCourseFromCells cells =
     (let first = (case cells of [] \<Rightarrow> [] | c # _ \<Rightarrow> c);
          hasSerial = allDigits first;
          offset = (if hasSerial then 1 else 0)
      in if offset + 3 \<le> length cells
         then \<lparr>serial = (if hasSerial then Some (trim first) else None),
               code = orNull (trim (cells ! offset)),
               title = orNull (trim (cells ! (offset + 1))),
               credits = map_option CreditString (orNull (trim (cells ! (offset + 2)))),
               prerequisite = (if offset + 5 \<le> length cells
                               then orNull (trim (cells ! (offset + 4))) else None)\<rparr>
         else let (serial', code', credits', remaining) = scanCells cells (None, None, None, []);
                  title' = trim (join '' - '' remaining)
              in \<lparr>serial = serial', code = code', title = orNull title',
                  credits = (if falsy credits' then None else map_option CreditNumber credits'),
                  prerequisite = None\<rparr>)"

text \<open>
  The serial prefix of a line, \<open>/^\s*(\d+)\s*[.)-]?\s*/\<close>: the length of the match and
  the digits.
\<close>

definition serialPrefix :: "string \<Rightarrow> (nat \<times> string) option" where
  "serialPrefix s =
     (let ws0 = takeWhile isSpace s;
          r0 = dropWhile isSpace s;
          digits = takeWhile isDigit r0;
          r1 = dropWhile isDigit r0;
          ws1 = takeWhile isSpace r1;
          r2 = dropWhile isSpace r1;
          mark = (case r2 of [] \<Rightarrow> [] | c # _ \<Rightarrow> if c \<in> set ''.)-'' then [c] else []);
          r3 = drop (length mark) r2;
          ws2 = takeWhile isSpace r3
      in if digits = [] then None
         else Some (length ws0 + length digits + length ws1 + length mark + length ws2, digits))"

text \<open>
  The length of a run of dashes at the start of a string: hyphens, en dashes
  (E2 80 93) and em dashes (E2 80 94).
\<close>

fun dashRun :: "string \<Rightarrow> nat" where
  "dashRun (a # b # c # cs) =
     (if a = CHR ''-'' then 1 + dashRun (b # c # cs)
      else if a = CHR 0xE2 \<and> b = CHR 0x80 \<and> (c = CHR 0x93 \<or> c = CHR 0x94) then 3 + dashRun cs
      else 0)"
| "dashRun (a # cs) = (if a = CHR ''-'' then 1 + dashRun cs else 0)"
| "dashRun [] = 0"

text \<open>\<open>/[-\<dots>]+/g\<close> and \<open>/\s{2,}/g\<close> for \<open>replaceAll\<close>, both replaced by one space.\<close>

definition dashes :: "char option \<Rightarrow> string \<Rightarrow> (nat \<times> string) option" where
  "dashes prev s = (if dashRun s = 0 then None else Some (dashRun s, '' ''))"

definition wideSpace :: "char option \<Rightarrow> string \<Rightarrow> (nat \<times> string) option" where
  "wideSpace prev s =
     (if 2 \<le> length (takeWhile isSpace s) then Some (length (takeWhile isSpace s), '' '')
      else None)"

text \<open>The variables \<open>rest\<close>, \<open>code\<close> and \<open>credits\<close> are threaded through the steps.\<close>

definition parseCourseFromLine :: "string \<Rightarrow> parsedCourse" where
  "parseCourseFromLine line =
     (let s = trim line;
          serialMatch = serialPrefix s;
          serial' = map_option snd serialMatch;
          rest0 = (case serialMatch of None \<Rightarrow> s | Some (n, _) \<Rightarrow> drop n s);
          codeMatch = firstMatch codeRegex rest0;
          code' = map_option (\<lambda>m. trim (replaceRuns isSpace '' '' m)) codeMatch;
          rest1 = (case codeMatch of None \<Rightarrow> rest0 | Some m \<Rightarrow> replaceFirst rest0 m []);
          creditsMatch = firstMatchAfter creditsRegex None rest1;
          credits' = map_option (\<lambda>(m, g). CreditNumber g) creditsMatch;
          rest2 = (case creditsMatch of None \<Rightarrow> rest1 | Some (m, g) \<Rightarrow> replaceFirst rest1 m []);
          title' = trim (replaceAll wideSpace (replaceAll dashes rest2))
      in \<lparr>serial = serial', code = code', title = orNull title', credits = credits',
          prerequisite = None\<rparr>)"

subsection \<open>The document and the three strategies\<close>

text \<open>
  The document as \<open>extractSemesters\<close> reads it through cheerio: the headings
  \<open>h1\<close> to \<open>h6\<close> in document order, each with its text and the siblings that follow
  it, and the tables in document order. A sibling is a heading (with its text), a
  table (the \<open>th\<close> and \<open>td\<close> texts of each of its rows), a list (the texts of its items),
  a paragraph or division (its text) or something else. A table has the text of the
  first header cell of its \<open>thead\<close>, its body rows (the text of the row's first
  \<open>th[scope="row"]\<close> and the texts of its \<open>td\<close> cells) and all its rows (the \<open>th\<close> and
  \<open>td\<close> texts).
\<close>

datatype sibling =
    Heading string
  | TableNode "string list list"
  | ListNode "string list"
  | Block string
  | OtherNode

record heading =
  headingText :: string
  siblings :: "sibling list"

record table =
  headText :: string
  bodyRows :: "(string \<times> string list) list"
  rows :: "string list list"

record document =
  headings :: "heading list"
  tables :: "table list"

record scrapedSemester =
  name :: string
  courses :: "parsedCourse list"

text \<open>\<open>/semester/i.test(s)\<close>.\<close>

definition hasSemester :: "string \<Rightarrow> bool" where
  "hasSemester s = includesStr (toLowerCase s) ''semester''"

text \<open>\<open>parsed.code || parsed.title\<close>.\<close>

definition hasCodeOrTitle :: "parsedCourse \<Rightarrow> bool" where
  "hasCodeOrTitle parsed = (\<not> falsy (code parsed) \<or> \<not> falsy (title parsed))"

text \<open>The deduplication loop: \<open>seen\<close> holds the keys, \<open>deduped\<close> the courses kept.\<close>

fun dedupeLoop :: "parsedCourse list \<Rightarrow> string set \<Rightarrow> parsedCourse list \<Rightarrow> parsedCourse list" where
  "dedupeLoop [] seen deduped = deduped"
| "dedupeLoop (c # cs) seen deduped =
     (let key = orEmpty (code c) @ ''||'' @ orEmpty (title c)
      in if key \<notin> seen then dedupeLoop cs (insert key seen) (deduped @ [c])
         else dedupeLoop cs seen deduped)"

definition dedupe :: "parsedCourse list \<Rightarrow> parsedCourse list" where
  "dedupe cs = dedupeLoop cs {} []"

text \<open>\<open>s.split(/\n|\r/)\<close>: the pieces between the line breaks, one by one.\<close>

fun splitLinesFrom :: "string \<Rightarrow> string \<Rightarrow> string list" where
  "splitLinesFrom acc [] = [rev acc]"
| "splitLinesFrom acc (c # cs) =
     (if c = CHR 0x0A \<or> c = CHR 0x0D then rev acc # splitLinesFrom [] cs
      else splitLinesFrom (c # acc) cs)"

text \<open>Strategy A: the rows of a table, the items of a list, the lines of a block.\<close>

fun rowsLoop :: "string list list \<Rightarrow> parsedCourse list \<Rightarrow> parsedCourse list" where
  "rowsLoop [] cs = cs"
| "rowsLoop (tr # trs) cs =
     (let cols = filter (\<lambda>t. t \<noteq> []) (map trim tr)
      in if 2 \<le> length cols
         then (let parsed = parseCourseFromCells cols
               in if hasCodeOrTitle parsed then rowsLoop trs (cs @ [parsed]) else rowsLoop trs cs)
         else rowsLoop trs cs)"

fun itemsLoop :: "string list \<Rightarrow> parsedCourse list \<Rightarrow> parsedCourse list" where
  "itemsLoop [] cs = cs"
| "itemsLoop (li # lis) cs =
     (let parsed = parseCourseFromLine (trim li)
      in if hasCodeOrTitle parsed then itemsLoop lis (cs @ [parsed]) else itemsLoop lis cs)"

fun linesLoop :: "string list \<Rightarrow> parsedCourse list \<Rightarrow> parsedCourse list" where
  "linesLoop [] cs = cs"
| "linesLoop (line # ls) cs =
     (if \<not> list_ex isDigit line \<and> firstMatch codeRegex line = None then linesLoop ls cs
      else let parsed = parseCourseFromLine line
           in if hasCodeOrTitle parsed then linesLoop ls (cs @ [parsed]) else linesLoop ls cs)"

text \<open>The walk over the siblings of a heading, up to the next semester heading.\<close>

fun siblingsLoop :: "sibling list \<Rightarrow> parsedCourse list \<Rightarrow> parsedCourse list" where
  "siblingsLoop [] cs = cs"
| "siblingsLoop (Heading t # sibs) cs = (if hasSemester t then cs else siblingsLoop sibs cs)"
| "siblingsLoop (TableNode trs # sibs) cs = siblingsLoop sibs (rowsLoop trs cs)"
| "siblingsLoop (ListNode lis # sibs) cs = siblingsLoop sibs (itemsLoop lis cs)"
| "siblingsLoop (Block t # sibs) cs =
     siblingsLoop sibs
       (linesLoop (filter (\<lambda>l. l \<noteq> []) (map trim (splitLinesFrom [] t))) cs)"
| "siblingsLoop (OtherNode # sibs) cs = siblingsLoop sibs cs"

fun method1 :: "heading list \<Rightarrow> scrapedSemester list \<Rightarrow> scrapedSemester list" where
  "method1 [] semesters = semesters"
| "method1 (h # hs) semesters =
     (if hasSemester (headingText h)
      then method1 hs
             (semesters @ [\<lparr>name = trim (headingText h),
                             courses = dedupe (siblingsLoop (siblings h) [])\<rparr>])
      else method1 hs semesters)"

text \<open>Strategy B: the body rows of a table, and the loop over the tables.\<close>

fun bodyRowsLoop :: "(string \<times> string list) list \<Rightarrow> parsedCourse list \<Rightarrow> parsedCourse list" where
  "bodyRowsLoop [] cs = cs"
| "bodyRowsLoop ((rowHeader, tds) # trs) cs =
     (let serial' = trim rowHeader;
          cells = (if serial' \<noteq> [] then [serial'] else []) @ map trim tds
      in if cells \<noteq> []
         then (let parsed = parseCourseFromCells cells
               in if hasCodeOrTitle parsed then bodyRowsLoop trs (cs @ [parsed])
                  else bodyRowsLoop trs cs)
         else bodyRowsLoop trs cs)"

fun method2 :: "table list \<Rightarrow> scrapedSemester list \<Rightarrow> scrapedSemester list" where
  "method2 [] semesters = semesters"
| "method2 (t # ts) semesters =
     (let headText' = trim (headText t)
      in if \<not> hasSemester headText' then method2 ts semesters
         else if (\<exists>s \<in> set semesters. name s = headText') then method2 ts semesters
         else method2 ts
                (semesters @ [\<lparr>name = headText',
                                courses = dedupe (bodyRowsLoop (bodyRows t) [])\<rparr>]))"

text \<open>Strategy C: the rows of a table with \<open>courses\<close> and \<open>hasTotal\<close>, and the loop
  over the tables with \<open>semesterIndex\<close>.\<close>

fun totalRowsLoop :: "string list list \<Rightarrow> parsedCourse list \<times> bool \<Rightarrow> parsedCourse list \<times> bool" where
  "totalRowsLoop [] st = st"
| "totalRowsLoop (tr # trs) (cs, hasTotal) =
     (let cols = map trim tr
      in if length (filter (\<lambda>t. t \<noteq> []) cols) = 0 then totalRowsLoop trs (cs, hasTotal)
         else let rowText = toLowerCase (join '' '' cols)
              in if includesStr rowText ''total'' \<or> includesStr rowText ''grand total''
                 then totalRowsLoop trs (cs, True)
                 else let parsed = parseCourseFromCells cols
                      in if hasCodeOrTitle parsed \<and> \<not> includesStr rowText ''total''
                         then totalRowsLoop trs (cs @ [parsed], hasTotal)
                         else totalRowsLoop trs (cs, hasTotal))"

text \<open>The decimal digits of a number, for the template \<open>`Semester-${semesterIndex}`\<close>.\<close>

fun showNat :: "nat \<Rightarrow> string" where
  "showNat n =
     (if n < 10 then [''0123456789'' ! n]
      else showNat (n div 10) @ [''0123456789'' ! (n mod 10)])"

fun method3 :: "table list \<Rightarrow> nat \<Rightarrow> scrapedSemester list \<Rightarrow> scrapedSemester list" where
  "method3 [] semesterIndex semesters = semesters"
| "method3 (t # ts) semesterIndex semesters =
     (let (cs, hasTotal) = totalRowsLoop (rows t) ([], False)
      in if 0 < length cs \<and> hasTotal
         then method3 ts (semesterIndex + 1)
                (semesters @ [\<lparr>name = ''Semester-'' @ showNat semesterIndex,
                                courses = dedupe cs\<rparr>])
         else method3 ts semesterIndex semesters)"

definition extractSemesters :: "document \<Rightarrow> scrapedSemester list" where
  "extractSemesters doc =
     (let semesters1 = method1 (headings doc) [];
          semesters2 = method2 (tables doc) semesters1
      in if length semesters2 = 0 then method3 (tables doc) 1 semesters2 else semesters2)"

section \<open>The record normalizer (tools/compare\_courses.js, tools/compare\_courses\_AI.js)\<close>

text \<open>
  A course as the comparison tools read it from JSON: every field is absent
  (\<open>null\<close> or missing) or a string.
\<close>

record course =
  serial :: "string option"
  code :: "string option"
  title :: "string option"
  credits :: "string option"
  prerequisite :: "string option"

definition normalizeCode :: "string option \<Rightarrow> string" where
  "normalizeCode c = (if falsy c then [] else toUpperCase (trim (orEmpty c)))"

definition normalizeCredits :: "string option \<Rightarrow> string" where
  "normalizeCredits c = (if falsy c then [] else trim (orEmpty c))"

text \<open>
  \<open>normalizeTitle\<close>. The four curly quotes U+2018, U+2019, U+201C and U+201D are the
  byte sequences E2 80 98, E2 80 99, E2 80 9C and E2 80 9D.
\<close>

fun replaceCurlyQuotes :: "string \<Rightarrow> string" where
  "replaceCurlyQuotes (a # b # c # cs) =
     (if a = CHR 0xE2 \<and> b = CHR 0x80 \<and> c \<in> set [CHR 0x98, CHR 0x99, CHR 0x9C, CHR 0x9D]
      then CHR 0x27 # replaceCurlyQuotes cs
      else a # replaceCurlyQuotes (b # c # cs))"
| "replaceCurlyQuotes (a # cs) = a # replaceCurlyQuotes cs"
| "replaceCurlyQuotes [] = []"

definition normalizeTitle :: "string option \<Rightarrow> string" where
  "normalizeTitle t =
     (if falsy t then []
      else toLowerCase (trim (replaceCurlyQuotes (replaceRuns isSpace '' '' (orEmpty t)))))"

text \<open>
  The course-code pattern of the comparison tools, \<open>/[A-Z]{2,}[-\s]?\d{2,4}/\<close>, at the
  start of a string: all the capital letters there (at least two), one hyphen or
  white-space character if there is one, then up to four digits (at least two). Taking
  fewer letters, or no separator where there is one, leaves a letter or a separator
  where a digit must follow, so the greedy reading is the only one that can match.
\<close>

definition codePattern :: "string \<Rightarrow> string option" where
  "codePattern s =
     (let letters = takeWhile isUpper s;
          r1 = dropWhile isUpper s;
          sep = (case r1 of [] \<Rightarrow> [] | c # _ \<Rightarrow> if c = CHR ''-'' \<or> isSpace c then [c] else []);
          r2 = drop (length sep) r1;
          digits = take 4 (takeWhile isDigit r2)
      in if 2 \<le> length letters \<and> 2 \<le> length digits then Some (letters @ sep @ digits)
         else None)"

text \<open>
  \<open>normalizePrereq\<close> (compare\_courses.js, inside \<open>compareSemesters\<close>). \<open>sort()\<close>
  without a comparison function orders strings by their code units, which is the
  lexicographic order of the characters.
\<close>

definition normalizePrereq :: "string option \<Rightarrow> string" where
  "normalizePrereq p =
     (if falsy p then []
      else let s = toUpperCase (trim (orEmpty p));
               codes = matchAll codePattern s
           in join ''|'' (sort (map (replaceRuns isSpace ''-'') codes)))"

text \<open>
  The two tools differ in the fingerprint and in one branch of the pairing loop.
  The flag \<open>pa\<close> (prerequisite-aware) selects the tool: \<open>True\<close> is compare\_courses.js,
  \<open>False\<close> is compare\_courses\_AI.js.
\<close>

definition fingerprint :: "bool \<Rightarrow> course \<Rightarrow> string" where
  "fingerprint pa c =
     (if pa then normalizeCode (code c) @ ''|'' @ normalizeCredits (credits c) @ ''|''
                 @ normalizePrereq (prerequisite c)
      else normalizeCode (code c) @ ''|'' @ normalizeCredits (credits c))"

definition isTotalCourse :: "course \<Rightarrow> bool" where
  "isTotalCourse c =
     (let code' = normalizeCode (code c);
          title' = toLowerCase (orEmpty (title c))
      in if code' = [] \<and> title' = [] then False
         else if code' = ''TOTAL'' \<or> code' = ''GRAND TOTAL'' then True
         else if includesStr title' ''total'' then True
         else False)"

section \<open>The term matcher: names\<close>

definition romanToInt :: "string \<Rightarrow> string" where
  "romanToInt r =
     (if r = [] then r
      else let m = toUpperCase r
           in if m = ''I'' then ''1''
              else if m = ''II'' then ''2''
              else if m = ''III'' then ''3''
              else if m = ''IV'' then ''4''
              else if m = ''V'' then ''5''
              else m)"

text \<open>
  \<open>(i{1,3}|iv|v)\b\<close> with the flag \<open>i\<close>, at the start of a string: the alternatives in the
  order the matcher tries them (three, two, one \<open>i\<close>, then \<open>iv\<close>, then \<open>v\<close>), the first
  one that a word boundary follows. The result is the text matched.
\<close>

definition boundaryAfter :: "string \<Rightarrow> bool" where
  "boundaryAfter rest = (case rest of [] \<Rightarrow> True | c # _ \<Rightarrow> \<not> isWordChar c)"

definition romanNumeral :: "string \<Rightarrow> string option" where
  "romanNumeral s =
     map_option (\<lambda>r. take (length r) s)
       (find (\<lambda>r. toLowerCase (take (length r) s) = r \<and> boundaryAfter (drop (length r) s))
          [''iii'', ''ii'', ''i'', ''iv'', ''v''])"

text \<open>\<open>\b\<close> before a word character: the character before it is no word character.\<close>

definition wordBefore :: "char option \<Rightarrow> bool" where
  "wordBefore prev = (case prev of None \<Rightarrow> False | Some p \<Rightarrow> isWordChar p)"

text \<open>
  The patterns of \<open>normalizeSemKey\<close> for \<open>replaceAll\<close>, in the order of the function:
  \<open>/[-\<dots>]/g\<close> (a hyphen, an en dash or an em dash),
  \<open>/\b(?:semester)\s+(i{1,3}|iv|v)\b/gi\<close>, \<open>/\b(i{1,3}|iv|v)\b/gi\<close> and
  \<open>/pre\s*-?\s*medical/g\<close>, each with its replacement.
\<close>

definition oneDash :: "char option \<Rightarrow> string \<Rightarrow> (nat \<times> string) option" where
  "oneDash prev s =
     (if take 1 s = ''-'' then Some (1, '' '')
      else if take 3 s = [CHR 0xE2, CHR 0x80, CHR 0x93] \<or> take 3 s = [CHR 0xE2, CHR 0x80, CHR 0x94]
      then Some (3, '' '')
      else None)"

definition semesterRoman :: "char option \<Rightarrow> string \<Rightarrow> (nat \<times> string) option" where
  "semesterRoman prev s =
     (if wordBefore prev \<or> toLowerCase (take 8 s) \<noteq> ''semester'' then None
      else let ws = takeWhile isSpace (drop 8 s)
           in if ws = [] then None
              else (case romanNumeral (dropWhile isSpace (drop 8 s)) of
                      None \<Rightarrow> None
                    | Some r \<Rightarrow> Some (8 + length ws + length r, ''semester '' @ romanToInt r)))"

definition standaloneRoman :: "char option \<Rightarrow> string \<Rightarrow> (nat \<times> string) option" where
  "standaloneRoman prev s =
     (if wordBefore prev then None
      else (case romanNumeral s of None \<Rightarrow> None | Some r \<Rightarrow> Some (length r, romanToInt r)))"

definition preMedical :: "char option \<Rightarrow> string \<Rightarrow> (nat \<times> string) option" where
  "preMedical prev s =
     (if take 3 s \<noteq> ''pre'' then None
      else let r1 = drop 3 s;
               ws1 = takeWhile isSpace r1;
               r2 = dropWhile isSpace r1;
               hyphen = (if take 1 r2 = ''-'' then ''-'' else []);
               r3 = drop (length hyphen) r2;
               ws2 = takeWhile isSpace r3;
               r4 = dropWhile isSpace r3
           in if take 7 r4 = ''medical''
              then Some (3 + length ws1 + length hyphen + length ws2 + 7, ''pre medical'')
              else None)"

definition normalizeSemKey :: "string \<Rightarrow> string" where
  "normalizeSemKey name' =
     (if name' = [] then []
      else let s1 = toLowerCase name';
               s2 = replaceAll oneDash s1;
               s3 = map (\<lambda>c. if c \<in> set ''(),.:'' then CHR '' '' else c) s2;
               s4 = trim (replaceRuns isSpace '' '' s3);
               s5 = replaceAll semesterRoman s4;
               s6 = replaceAll standaloneRoman s5;
               s7 = replaceAll preMedical s6
           in s7)"

text \<open>
  \<open>semesterNumber\<close>: the two patterns \<open>/semester\s*[-:]?\s*(\d+)/i\<close> and
  \<open>/semester[- ]?(\d+)/i\<close> at the start of a string, each giving its digits, and the
  number the digits denote (\<open>Number\<close> of a digit string is that number as long as it is
  below \<open>2^53\<close>).
\<close>

definition semesterDigits :: "string \<Rightarrow> string option" where
  "semesterDigits s =
     (if toLowerCase (take 8 s) \<noteq> ''semester'' then None
      else let r1 = dropWhile isSpace (drop 8 s);
               r2 = (if take 1 r1 = ''-'' \<or> take 1 r1 = '':'' then drop 1 r1 else r1);
               r3 = dropWhile isSpace r2
           in orNull (takeWhile isDigit r3))"

definition semesterDigits2 :: "string \<Rightarrow> string option" where
  "semesterDigits2 s =
     (if toLowerCase (take 8 s) \<noteq> ''semester'' then None
      else let r1 = drop 8 s;
               r2 = (if take 1 r1 = ''-'' \<or> take 1 r1 = '' '' then drop 1 r1 else r1)
           in orNull (takeWhile isDigit r2))"

definition numberOf :: "string \<Rightarrow> nat" where
  "numberOf ds = foldl (\<lambda>n c. 10 * n + length (takeWhile (\<lambda>d. d \<noteq> c) ''0123456789'')) 0 ds"

definition semesterNumber :: "string \<Rightarrow> nat option" where
  "semesterNumber name' =
     (if name' = [] then None
      else (case firstMatch semesterDigits name' of
              Some ds \<Rightarrow> Some (numberOf ds)
            | None \<Rightarrow> map_option numberOf (firstMatch semesterDigits2 name')))"

section \<open>The reconciliation engine: \<open>compareSemesters\<close>\<close>

text \<open>
  The entries of a diff list. \<open>diffType\<close> is the \<open>type\<close> field of the JavaScript object,
  the other fields are the constructor's arguments, in the order of the object literal.
\<close>

datatype diff =
    PrerequisiteMismatch course course
  | CodeMismatch course course
  | MissingInFetched nat course
  | ExtraInFetched nat course
  | CountMismatch course nat nat

fun diffType :: "diff \<Rightarrow> string" where
  "diffType (PrerequisiteMismatch fetched valid) = ''prerequisite-mismatch''"
| "diffType (CodeMismatch fetched valid) = ''code-mismatch''"
| "diffType (MissingInFetched n c) = ''missing-in-fetched''"
| "diffType (ExtraInFetched n c) = ''extra-in-fetched''"
| "diffType (CountMismatch c fetchedCount validCount) = ''count-mismatch''"

text \<open>The courses a diff entry carries.\<close>

fun diffCourses :: "diff \<Rightarrow> course list" where
  "diffCourses (PrerequisiteMismatch fetched valid) = [fetched, valid]"
| "diffCourses (CodeMismatch fetched valid) = [fetched, valid]"
| "diffCourses (MissingInFetched n c) = [c]"
| "diffCourses (ExtraInFetched n c) = [c]"
| "diffCourses (CountMismatch c fetchedCount validCount) = [c]"

text \<open>An entry of \<open>report.semesters\<close>.\<close>

record reportEntry =
  name :: string
  validKey :: string
  diffCount :: nat
  diffs :: "diff list"

text \<open>A term as the comparison tools read it from JSON.\<close>

record semester =
  name :: string
  courses :: "course list option"

text \<open>\<open>sem.courses || []\<close>.\<close>

definition coursesOf :: "semester \<Rightarrow> course list" where
  "coursesOf sem = (case courses sem of None \<Rightarrow> [] | Some cs \<Rightarrow> cs)"

text \<open>
  A JavaScript \<open>Map\<close> keeps its keys in insertion order and \<open>set\<close> on a key that is
  there keeps the key's place: an association list, read by \<open>map_of\<close> and written by
  \<open>AList.update\<close>.
\<close>

record entry =
  count :: nat
  sample :: course

type_synonym countMap = "(string \<times> entry) list"

fun makeCountMapLoop :: "bool \<Rightarrow> course list \<Rightarrow> countMap \<Rightarrow> countMap" where
  "makeCountMapLoop pa [] m = m"
| "makeCountMapLoop pa (c # arr) m =
     (if isTotalCourse c then makeCountMapLoop pa arr m
      else let key = fingerprint pa c;
               entry0 = (case map_of m key of Some e \<Rightarrow> e | None \<Rightarrow> \<lparr>count = 0, sample = c\<rparr>);
               entry1 = entry0\<lparr>count := count entry0 + 1\<rparr>
           in makeCountMapLoop pa arr (AList.update key entry1 m))"

definition makeCountMap :: "bool \<Rightarrow> course list \<Rightarrow> countMap" where
  "makeCountMap pa arr = makeCountMapLoop pa arr []"

text \<open>
  The loop over \<open>vMap.entries()\<close>: \<open>{key, entry}\<close> pairs pushed on \<open>missingList\<close>,
  \<open>{course, fetchedCount, validCount}\<close> triples pushed on \<open>countMismatches\<close>.
\<close>

type_synonym candidate = "string \<times> entry"
type_synonym countMismatch = "course \<times> nat \<times> nat"

fun validLoop :: "countMap \<Rightarrow> countMap \<Rightarrow> candidate list \<times> countMismatch list
    \<Rightarrow> candidate list \<times> countMismatch list" where
  "validLoop fMap [] acc = acc"
| "validLoop fMap ((k, vEntry) # rest) (missingList, countMismatches) =
     (case map_of fMap k of
        None \<Rightarrow> validLoop fMap rest (missingList @ [(k, vEntry)], countMismatches)
      | Some fEntry \<Rightarrow>
          if count fEntry \<noteq> count vEntry
          then validLoop fMap rest
                 (missingList, countMismatches @ [(sample vEntry, count fEntry, count vEntry)])
          else validLoop fMap rest (missingList, countMismatches))"

text \<open>The loop over \<open>fMap.entries()\<close>.\<close>

fun extraLoop :: "countMap \<Rightarrow> countMap \<Rightarrow> candidate list \<Rightarrow> candidate list" where
  "extraLoop vMap [] extraList = extraList"
| "extraLoop vMap ((k, fEntry) # rest) extraList =
     (if map_of vMap k = None then extraLoop vMap rest (extraList @ [(k, fEntry)])
      else extraLoop vMap rest extraList)"

subsection \<open>Title similarity\<close>

definition isAlnum :: "char \<Rightarrow> bool" where
  "isAlnum c = (isUpper c \<or> isLower c \<or> isDigit c)"

text \<open>\<open>w.replace(/s$/, '')\<close>.\<close>

definition stripS :: "string \<Rightarrow> string" where
  "stripS w = (if w \<noteq> [] \<and> last w = CHR ''s'' then butlast w else w)"

text \<open>\<open>[\W_]\<close> is every character that is not a letter or a digit.\<close>

definition words :: "string option \<Rightarrow> string list" where
  "words s =
     filter (\<lambda>w. 2 < length w)
       (map stripS
          (splitRuns isSpace
             (replaceRuns (\<lambda>c. \<not> isAlnum c) '' '' (toLowerCase (orEmpty s)))))"

text \<open>
  The quotient of the two set sizes is a rational here and a double in JavaScript;
  it is only compared with 0.15, and the comparison agrees unless the union has more
  than \<open>10^15\<close> words.
\<close>

definition jaccard :: "string option \<Rightarrow> string option \<Rightarrow> rat" where
  "jaccard a b =
     (let A = remdups (words a);
          B = remdups (words b)
      in if length A = 0 \<or> length B = 0 then 0
         else let inter = length (filter (\<lambda>x. x \<in> set B) A);
                  uni = length (remdups (A @ B))
              in of_nat inter / of_nat uni)"

definition acronym :: "string option \<Rightarrow> string" where
  "acronym s = toUpperCase (concat (map (take 1) (words s)))"

text \<open>The condition under which the pairing loop pushes a code-mismatch.\<close>

definition titlesSimilar :: "course \<Rightarrow> course \<Rightarrow> bool" where
  "titlesSimilar mCourse eCourse =
     (let sim = jaccard (title mCourse) (title eCourse);
          acrM = acronym (title mCourse);
          acrE = acronym (title eCourse);
          subs = (includesStr (toLowerCase (orEmpty (title mCourse)))
                              (toLowerCase (orEmpty (title eCourse)))
                  \<or> includesStr (toLowerCase (orEmpty (title eCourse)))
                                 (toLowerCase (orEmpty (title mCourse))));
          tokenIntersection = (\<exists>t \<in> set (words (title mCourse)). t \<in> set (words (title eCourse)))
      in 15 / 100 \<le> sim
         \<or> (acrM \<noteq> [] \<and> acrE \<noteq> [] \<and> (includesStr acrM acrE \<or> includesStr acrE acrM))
         \<or> subs \<or> tokenIntersection)"

subsection \<open>Greedy pairing\<close>

text \<open>
  The state of the pairing loops: the \<open>diffs\<close> pushed so far (\<open>ds\<close>) and the index sets
  \<open>pairedMissing\<close> and \<open>pairedExtra\<close>.
\<close>

type_synonym pairing = "diff list \<times> nat set \<times> nat set"

text \<open>
  The inner loop, from index \<open>j\<close> on, over the rest of \<open>extraList\<close>: \<open>continue\<close> goes on
  with the next index, \<open>break\<close> returns. The prerequisite branch is in compare\_courses.js
  only.
\<close>

fun innerLoop :: "bool \<Rightarrow> course \<Rightarrow> nat \<Rightarrow> candidate list \<Rightarrow> nat \<Rightarrow> pairing \<Rightarrow> pairing" where
  "innerLoop pa mCourse i [] j st = st"
| "innerLoop pa mCourse i (e # es) j (ds, pairedMissing, pairedExtra) =
     (if j \<in> pairedExtra then innerLoop pa mCourse i es (Suc j) (ds, pairedMissing, pairedExtra)
      else let eCourse = sample (snd e) in
        if normalizeCredits (credits mCourse) \<noteq> normalizeCredits (credits eCourse)
        then innerLoop pa mCourse i es (Suc j) (ds, pairedMissing, pairedExtra)
        else if pa \<and> normalizeCode (code mCourse) = normalizeCode (code eCourse)
                \<and> normalizePrereq (prerequisite mCourse) \<noteq> normalizePrereq (prerequisite eCourse)
        then (ds @ [PrerequisiteMismatch eCourse mCourse],
              insert i pairedMissing, insert j pairedExtra)
        else if titlesSimilar mCourse eCourse
        then (ds @ [CodeMismatch eCourse mCourse],
              insert i pairedMissing, insert j pairedExtra)
        else innerLoop pa mCourse i es (Suc j) (ds, pairedMissing, pairedExtra))"

text \<open>The outer loop, from index \<open>i\<close> on, over the rest of \<open>missingList\<close>.\<close>

fun outerLoop :: "bool \<Rightarrow> candidate list \<Rightarrow> nat \<Rightarrow> candidate list \<Rightarrow> pairing \<Rightarrow> pairing" where
  "outerLoop pa [] i extraList st = st"
| "outerLoop pa (m # ms) i extraList st =
     outerLoop pa ms (Suc i) extraList (innerLoop pa (sample (snd m)) i extraList 0 st)"

text \<open>The two loops over what was not paired.\<close>

fun remainingMissing :: "candidate list \<Rightarrow> nat \<Rightarrow> nat set \<Rightarrow> diff list \<Rightarrow> diff list" where
  "remainingMissing [] i pairedMissing ds = ds"
| "remainingMissing (m # ms) i pairedMissing ds =
     (if i \<in> pairedMissing then remainingMissing ms (Suc i) pairedMissing ds
      else remainingMissing ms (Suc i) pairedMissing
             (ds @ [MissingInFetched (count (snd m)) (sample (snd m))]))"

fun remainingExtra :: "candidate list \<Rightarrow> nat \<Rightarrow> nat set \<Rightarrow> diff list \<Rightarrow> diff list" where
  "remainingExtra [] j pairedExtra ds = ds"
| "remainingExtra (e # es) j pairedExtra ds =
     (if j \<in> pairedExtra then remainingExtra es (Suc j) pairedExtra ds
      else remainingExtra es (Suc j) pairedExtra
             (ds @ [ExtraInFetched (count (snd e)) (sample (snd e))]))"

definition compareSemesters :: "bool \<Rightarrow> semester \<Rightarrow> semester \<Rightarrow> diff list" where
  "compareSemesters pa fetchedSem validSemMerged =
     (let fetchedCourses = coursesOf fetchedSem;
          validCourses = coursesOf validSemMerged;
          fMap = makeCountMap pa fetchedCourses;
          vMap = makeCountMap pa validCourses;
          (missingList, countMismatches) = validLoop fMap vMap ([], []);
          extraList = extraLoop vMap fMap [];
          (diffs1, pairedMissing, pairedExtra) = outerLoop pa missingList 0 extraList ([], {}, {});
          diffs2 = remainingMissing missingList 0 pairedMissing diffs1;
          diffs3 = remainingExtra extraList 0 pairedExtra diffs2
      in diffs3 @ map (\<lambda>(c, fetchedCount, validCount). CountMismatch c fetchedCount validCount)
                    countMismatches)"

section \<open>The report: \<open>main\<close>\<close>

text \<open>
  \<open>buildSheetSemesterMap\<close>: the reference terms by name, the courses of terms of the same
  name in one list.
\<close>

type_synonym sheetMap = "(string \<times> semester) list"

fun sheetMapLoop :: "semester list \<Rightarrow> sheetMap \<Rightarrow> sheetMap" where
  "sheetMapLoop [] m = m"
| "sheetMapLoop (sem # sems) m =
     (let key = (if name sem = [] then ''(unknown)'' else name sem);
          m1 = (if map_of m key = None then AList.update key \<lparr>name = key, courses = Some []\<rparr> m
                else m)
      in sheetMapLoop sems
           (case map_of m1 key of
              None \<Rightarrow> m1
            | Some e \<Rightarrow> AList.update key (e\<lparr>courses := Some (coursesOf e @ coursesOf sem)\<rparr>) m1))"

definition buildSheetSemesterMap :: "semester list \<Rightarrow> sheetMap" where
  "buildSheetSemesterMap sheetSemesters = sheetMapLoop sheetSemesters []"

text \<open>
  The choice of \<open>matchedKey\<close> in the loop over the scraped terms: the name itself when
  it is a key, else the first key of the same normalized name, else the first key of
  the same semester number.
\<close>

definition matchKey :: "sheetMap \<Rightarrow> string \<Rightarrow> string option" where
  "matchKey sheetMap scrapedName =
     (let num = semesterNumber scrapedName
      in if map_of sheetMap scrapedName \<noteq> None then Some scrapedName
         else let norm = normalizeSemKey scrapedName;
                  matchedKey = find (\<lambda>k. normalizeSemKey k = norm) (map fst sheetMap)
              in if falsy matchedKey \<and> num \<noteq> None
                 then (case find (\<lambda>k. semesterNumber k = num) (map fst sheetMap) of
                         Some k \<Rightarrow> Some k
                       | None \<Rightarrow> matchedKey)
                 else matchedKey)"

text \<open>
  The loop over the scraped terms, with \<open>report.semesters\<close> and \<open>matchedSheetKeys\<close>. A
  matched key is a key of the map, so \<open>sheetMap.get(matchedKey)\<close> finds its term.
\<close>

fun scrapedLoop :: "bool \<Rightarrow> sheetMap \<Rightarrow> semester list \<Rightarrow> reportEntry list \<times> string set
    \<Rightarrow> reportEntry list \<times> string set" where
  "scrapedLoop pa sheetMap [] st = st"
| "scrapedLoop pa sheetMap (scrapedSem # rest) (report, matchedSheetKeys) =
     (let matchedKey = matchKey sheetMap (name scrapedSem);
          empty = \<lparr>name = name scrapedSem, courses = Some []\<rparr>;
          validSem = (if falsy matchedKey then empty
                      else (case map_of sheetMap (orEmpty matchedKey) of
                              Some sem \<Rightarrow> sem | None \<Rightarrow> empty));
          matched = (if falsy matchedKey then matchedSheetKeys
                     else insert (orEmpty matchedKey) matchedSheetKeys);
          ds = compareSemesters pa scrapedSem validSem
      in scrapedLoop pa sheetMap rest
           (report @ [\<lparr>reportEntry.name = name scrapedSem, validKey = name validSem,
                        diffCount = length ds, diffs = ds\<rparr>],
            matched))"

text \<open>The loop over the reference terms that no scraped term matched.\<close>

fun sheetLoop :: "bool \<Rightarrow> sheetMap \<Rightarrow> string set \<Rightarrow> reportEntry list \<Rightarrow> reportEntry list" where
  "sheetLoop pa [] matchedSheetKeys report = report"
| "sheetLoop pa ((key, sheetSem) # rest) matchedSheetKeys report =
     (if key \<in> matchedSheetKeys then sheetLoop pa rest matchedSheetKeys report
      else let ds = compareSemesters pa \<lparr>name = key, courses = Some []\<rparr> sheetSem
           in if 0 < length ds
              then sheetLoop pa rest matchedSheetKeys
                     (report @ [\<lparr>reportEntry.name = ''(extra in valid) '' @ key, validKey = key,
                                  diffCount = length ds, diffs = ds\<rparr>])
              else sheetLoop pa rest matchedSheetKeys report)"

text \<open>
  The \<open>semesters\<close> of the report \<open>main\<close> builds from the scraped terms and the reference
  terms (\<open>scraped.semesters || []\<close> and \<open>sheet.semesters || []\<close>).
\<close>

definition buildReport :: "bool \<Rightarrow> semester list \<Rightarrow> semester list \<Rightarrow> reportEntry list" where
  "buildReport pa scrapedSems sheetSemesters =
     (let sheetMap = buildSheetSemesterMap sheetSemesters;
          (report, matchedSheetKeys) = scrapedLoop pa sheetMap scrapedSems ([], {})
      in sheetLoop pa sheetMap matchedSheetKeys report)"

section \<open>Notions used in the statements\<close>

text \<open>The fingerprints of the courses of a list that take part in the comparison.\<close>

definition nonTotalFingerprints :: "bool \<Rightarrow> course list \<Rightarrow> string list" where
  "nonTotalFingerprints pa cs = map (fingerprint pa) (filter (\<lambda>c. \<not> isTotalCourse c) cs)"

text \<open>
  What the two loops over the maps compute: the entries of one map whose key the other
  lacks, and the count triples of the keys that both have with different counts.
\<close>

definition missingOf :: "countMap \<Rightarrow> countMap \<Rightarrow> candidate list" where
  "missingOf fMap vMap = filter (\<lambda>(k, vEntry). map_of fMap k = None) vMap"

definition mismatchOf :: "countMap \<Rightarrow> countMap \<Rightarrow> countMismatch list" where
  "mismatchOf fMap vMap =
     List.map_filter (\<lambda>(k, vEntry). case map_of fMap k of None \<Rightarrow> None
        | Some fEntry \<Rightarrow> if count fEntry \<noteq> count vEntry
                        then Some (sample vEntry, count fEntry, count vEntry) else None) vMap"

text \<open>
  The fingerprint a diff entry was found under (for a paired entry, the fingerprint of
  its reference course), whether an entry carries a course of a given fingerprint, and
  the two types of paired entries.
\<close>

fun diffKey :: "bool \<Rightarrow> diff \<Rightarrow> string" where
  "diffKey pa (PrerequisiteMismatch fetched valid) = fingerprint pa valid"
| "diffKey pa (CodeMismatch fetched valid) = fingerprint pa valid"
| "diffKey pa (MissingInFetched n c) = fingerprint pa c"
| "diffKey pa (ExtraInFetched n c) = fingerprint pa c"
| "diffKey pa (CountMismatch c fetchedCount validCount) = fingerprint pa c"

definition mentions :: "bool \<Rightarrow> string \<Rightarrow> diff \<Rightarrow> bool" where
  "mentions pa k d = (\<exists>c \<in> set (diffCourses d). fingerprint pa c = k)"

definition isPaired :: "diff \<Rightarrow> bool" where
  "isPaired d = (diffType d = ''code-mismatch'' \<or> diffType d = ''prerequisite-mismatch'')"

text \<open>
  The prerequisite key with every code kept once (the sorted set of the codes), for
  comparison with \<open>normalizePrereq\<close>.
\<close>

definition normalizePrereqAsSpecified :: "string option \<Rightarrow> string" where
  "normalizePrereqAsSpecified p =
     join ''|'' (sort (remdups (map (replaceRuns isSpace ''-'')
       (matchAll codePattern (toUpperCase (trim (orEmpty p)))))))"

text \<open>The serial offset of a cell list: 1 when the first cell is all digits, else 0.\<close>

definition serialOffset :: "string list \<Rightarrow> nat" where
  "serialOffset cells = (if allDigits (case cells of [] \<Rightarrow> [] | c # _ \<Rightarrow> c) then 1 else 0)"

text \<open>
  The name of a table (the trimmed text of its first header cell), the term Strategy B
  makes of a table, and the tables a loop over a table list takes when the names in
  \<open>seen\<close> are taken already.
\<close>

definition tableName :: "table \<Rightarrow> string" where
  "tableName t = trim (headText t)"

definition tableSemester :: "table \<Rightarrow> scrapedSemester" where
  "tableSemester t =
     \<lparr>scrapedSemester.name = tableName t,
      scrapedSemester.courses = dedupe (bodyRowsLoop (bodyRows t) [])\<rparr>"

fun selectTables :: "string list \<Rightarrow> table list \<Rightarrow> table list" where
  "selectTables seen [] = []"
| "selectTables seen (t # ts) =
     (if hasSemester (tableName t) \<and> tableName t \<notin> set seen
      then t # selectTables (seen @ [tableName t]) ts
      else selectTables seen ts)"

text \<open>
  The \<open>type\<close> strings of the diff entries the tools write, the type names of the
  specification, and an entry whose count and types are as they should be.
\<close>

definition reportTypes :: "string set" where
  "reportTypes = {''missing-in-fetched'', ''extra-in-fetched'', ''count-mismatch'',
     ''code-mismatch'', ''prerequisite-mismatch''}"

definition specifiedTypes :: "string set" where
  "specifiedTypes = {''missing'', ''extra'', ''count-mismatch'', ''code-mismatch'',
     ''prerequisite-mismatch''}"

definition wellFormedEntry :: "reportEntry \<Rightarrow> bool" where
  "wellFormedEntry e =
     (diffCount e = length (diffs e) \<and> (\<forall>d \<in> set (diffs e). diffType d \<in> reportTypes))"

text \<open>
  The first extra candidate, from index \<open>j\<close> on, that is not paired yet and has the
  normalized credits of a course, with its index; and the entry the pairing loop pushes
  for a pair: a prerequisite-mismatch when the tool is prerequisite-aware, the codes are
  equal and the prerequisite keys differ, else a code-mismatch.
\<close>

fun firstFit :: "course \<Rightarrow> candidate list \<Rightarrow> nat \<Rightarrow> nat set \<Rightarrow> (nat \<times> course) option" where
  "firstFit mCourse [] j pairedExtra = None"
| "firstFit mCourse (e # es) j pairedExtra =
     (if j \<notin> pairedExtra
         \<and> normalizeCredits (credits mCourse) = normalizeCredits (credits (sample (snd e)))
      then Some (j, sample (snd e))
      else firstFit mCourse es (Suc j) pairedExtra)"

definition pairedDiff :: "bool \<Rightarrow> course \<Rightarrow> course \<Rightarrow> diff" where
  "pairedDiff pa eCourse mCourse =
     (if pa \<and> normalizeCode (code mCourse) = normalizeCode (code eCourse)
         \<and> normalizePrereq (prerequisite mCourse) \<noteq> normalizePrereq (prerequisite eCourse)
      then PrerequisiteMismatch eCourse mCourse
      else CodeMismatch eCourse mCourse)"

text \<open>
  The reference term a live term is compared with (the term of the matched key, or an
  empty term of the live term's name when no key matched), the report entry of a live
  term, the report entry of a reference term that no live term matched, and the test
  for such a reference term to be reported: no live term matched its key, and it has at
  least one diff entry.
\<close>

definition validSemOf :: "sheetMap \<Rightarrow> semester \<Rightarrow> semester" where
  "validSemOf sheetMap scrapedSem =
     (case matchKey sheetMap (name scrapedSem) of
        None \<Rightarrow> \<lparr>name = name scrapedSem, courses = Some []\<rparr>
      | Some k \<Rightarrow> (case map_of sheetMap k of
                     None \<Rightarrow> \<lparr>name = name scrapedSem, courses = Some []\<rparr>
                   | Some sem \<Rightarrow> sem))"

definition liveEntry :: "bool \<Rightarrow> sheetMap \<Rightarrow> semester \<Rightarrow> reportEntry" where
  "liveEntry pa sheetMap scrapedSem =
     (let ds = compareSemesters pa scrapedSem (validSemOf sheetMap scrapedSem)
      in \<lparr>reportEntry.name = name scrapedSem,
          validKey = (case matchKey sheetMap (name scrapedSem) of
                        None \<Rightarrow> name scrapedSem | Some k \<Rightarrow> k),
          diffCount = length ds, diffs = ds\<rparr>)"

definition extraEntry :: "bool \<Rightarrow> string \<times> semester \<Rightarrow> reportEntry" where
  "extraEntry pa ks =
     (let ds = compareSemesters pa \<lparr>name = fst ks, courses = Some []\<rparr> (snd ks)
      in \<lparr>reportEntry.name = ''(extra in valid) '' @ fst ks, validKey = fst ks,
          diffCount = length ds, diffs = ds\<rparr>)"

definition unmatched :: "bool \<Rightarrow> sheetMap \<Rightarrow> semester list \<Rightarrow> string \<times> semester \<Rightarrow> bool" where
  "unmatched pa sheetMap scrapedSems ks =
     ((\<forall>s \<in> set scrapedSems. matchKey sheetMap (name s) \<noteq> Some (fst ks))
      \<and> compareSemesters pa \<lparr>name = fst ks, courses = Some []\<rparr> (snd ks) \<noteq> [])"

definition noPrerequisiteMismatch :: "diff \<Rightarrow> bool" where
  "noPrerequisiteMismatch d = (diffType d \<noteq> ''prerequisite-mismatch'')"

text \<open>
  Names made of tokens and marks. A mark is a white-space character or one of the
  punctuation marks \<open>-\<close>, \<open>(\<close>, \<open>)\<close>, \<open>,\<close>, \<open>.\<close>, \<open>:\<close>, the en dash and the em dash (the two
  dashes are three bytes each). A token is a non-empty string of ASCII characters that
  has no white space and none of the six ASCII marks in it; a word is a non-empty string
  of letters, digits and underscores, and every word is a token. \<open>spell segs marks\<close> is
  the name that has, for each segment, the marks of the segment and then its token, and
  the marks \<open>marks\<close> at the end; it is well spelled when every token but the first has
  at least one mark before it. A piece is an ASCII character, an en dash or an em dash;
  every name made of pieces is the spelling of a well-spelled list of tokens.
  \<open>romanDigit\<close> writes the Roman numerals I to V (in lower case) as digits and
  leaves every other word. \<open>keyChar\<close> holds of the characters a key may have: no
  capital letter A to Z, none of the marks \<open>-\<close>, \<open>(\<close>, \<open>)\<close>, \<open>,\<close>, \<open>.\<close>, \<open>:\<close>, and no white
  space other than the space.
\<close>

definition enDash :: string where
  "enDash = [CHR 0xE2, CHR 0x80, CHR 0x93]"

definition emDash :: string where
  "emDash = [CHR 0xE2, CHR 0x80, CHR 0x94]"

definition isMark :: "string \<Rightarrow> bool" where
  "isMark t = (t = enDash \<or> t = emDash
               \<or> (length t = 1 \<and> (isSpace (hd t) \<or> hd t \<in> set ''-(),.:'')))"

definition isAscii :: "char \<Rightarrow> bool" where
  "isAscii c = (\<not> digit7 c)"

definition plainChar :: "char \<Rightarrow> bool" where
  "plainChar c = (isAscii c \<and> \<not> isSpace c \<and> c \<notin> set ''-(),.:'')"

definition isToken :: "string \<Rightarrow> bool" where
  "isToken w = (w \<noteq> [] \<and> list_all plainChar w)"

definition isPiece :: "string \<Rightarrow> bool" where
  "isPiece t = (t = enDash \<or> t = emDash \<or> (length t = 1 \<and> isAscii (hd t)))"

definition isWord :: "string \<Rightarrow> bool" where
  "isWord w = (w \<noteq> [] \<and> list_all isWordChar w)"

definition romanDigit :: "string \<Rightarrow> string" where
  "romanDigit w =
     (case map_of [(''i'', ''1''), (''ii'', ''2''), (''iii'', ''3''), (''iv'', ''4''), (''v'', ''5'')] w of
        Some d \<Rightarrow> d | None \<Rightarrow> w)"

definition spell :: "(string list \<times> string) list \<Rightarrow> string list \<Rightarrow> string" where
  "spell segs marks = concat (map (\<lambda>(ms, w). concat ms @ w) segs) @ concat marks"

definition wellSpelled :: "(string \<Rightarrow> bool) \<Rightarrow> (string list \<times> string) list \<Rightarrow> string list \<Rightarrow> bool" where
  "wellSpelled good segs marks =
     (list_all (\<lambda>(ms, w). list_all isMark ms \<and> good w) segs
      \<and> list_all (\<lambda>(ms, w). ms \<noteq> []) (tl segs)
      \<and> list_all isMark marks)"

definition keyChar :: "char \<Rightarrow> bool" where
  "keyChar c = (\<not> isUpper c \<and> c \<notin> set ''-(),.:'' \<and> (isSpace c \<longrightarrow> c = CHR '' ''))"

text \<open>
  Notions of the proofs: a word in lower case; a string after the dashes and the
  punctuation marks are replaced (the first two replacements of \<open>normalizeSemKey\<close>);
  the alternatives of the Roman numeral pattern; a pattern that starts with a word
  boundary and does not match at a space; and the words after the numerals that follow
  the word semester are replaced.
\<close>

definition lowWord :: "string \<Rightarrow> bool" where
  "lowWord w = (w \<noteq> [] \<and> (\<forall>c \<in> set w. isWordChar c \<and> \<not> isUpper c))"

definition blanked :: "string \<Rightarrow> string" where
  "blanked s = map (\<lambda>c. if c \<in> set ''(),.:'' then CHR '' '' else c) (replaceAll oneDash s)"

definition romanWords :: "string list" where
  "romanWords = [''iii'', ''ii'', ''i'', ''iv'', ''v'']"

definition wordAnchored :: "(char option \<Rightarrow> string \<Rightarrow> (nat \<times> string) option) \<Rightarrow> bool" where
  "wordAnchored rx = (\<forall>p s. (wordBefore p \<longrightarrow> rx p s = None)
                        \<and> (\<not> wordBefore p \<longrightarrow> rx p s = rx None s)
                        \<and> rx p (CHR '' '' # s) = None)"

fun afterSemester :: "string list \<Rightarrow> string list" where
  "afterSemester (a # b # ws) =
     (if a = ''semester'' \<and> b \<in> set romanWords then a # romanDigit b # afterSemester ws
      else a # afterSemester (b # ws))"
| "afterSemester [a] = [a]"
| "afterSemester [] = []"

subsection \<open>Example terms\<close>

definition mkCourse :: "string \<Rightarrow> string \<Rightarrow> string \<Rightarrow> course" where
  "mkCourse c t cr =
     \<lparr>serial = None, code = Some c, title = Some t, credits = Some cr, prerequisite = None\<rparr>"

definition referenceTerm :: semester where
  "referenceTerm = \<lparr>name = ''Semester 1'', courses = Some
     [mkCourse ''CS101'' ''Intro to Programming'' ''3'',
      mkCourse ''MT100'' ''Calculus'' ''4'',
      mkCourse ''HU107'' ''Pakistan Studies'' ''2'',
      mkCourse ''HU107'' ''Pakistan Studies'' ''2'']\<rparr>"

definition liveTerm :: semester where
  "liveTerm = \<lparr>name = ''Semester 1'', courses = Some
     [mkCourse ''HU107'' ''Pakistan Studies'' ''2'',
      mkCourse ''CS110'' ''Introduction to Programming'' ''3'',
      mkCourse ''EE200'' ''Circuits'' ''1'']\<rparr>"

definition untitledCourse :: course where
  "untitledCourse =
     \<lparr>serial = None, code = Some ''PH450'', title = None, credits = Some ''3'', prerequisite = None\<rparr>"

definition blankCourse :: course where
  "blankCourse =
     \<lparr>serial = None, code = Some ''  '', title = Some '' '', credits = Some ''Total'',
      prerequisite = None\<rparr>"

definition exampleRow :: "string list" where
  "exampleRow = [''1'', ''CS101'', ''Programming Fundamentals'', ''3+1'', ''SDG 4'', ''CS100'']"

definition firstTable :: table where
  "firstTable = \<lparr>headText = ''Semester 3'',
     bodyRows = [(''1'', [''CS201'', ''Data Structures'', ''3+1''])], rows = []\<rparr>"

definition secondTable :: table where
  "secondTable = \<lparr>headText = ''Semester 3'',
     bodyRows = [(''1'', [''CS301'', ''Operating Systems'', ''3+1''])], rows = []\<rparr>"

definition exampleDocument :: document where
  "exampleDocument =
     \<lparr>headings = [\<lparr>headingText = ''Semester 1'',
                    siblings = [TableNode [[''1'', ''CS101'', ''Programming Fundamentals'', ''3'']]]\<rparr>],
      tables = [\<lparr>headText = ''Semester 1'', bodyRows = [], rows = []\<rparr>, firstTable, secondTable]\<rparr>"

definition otherTerm :: semester where
  "otherTerm = \<lparr>name = ''Semester 2'', courses = Some [mkCourse ''MT200'' ''Linear Algebra'' ''3'']\<rparr>"

definition exampleName :: "(string list \<times> string) list" where
  "exampleName = [([], ''Semester''), ([enDash], ''II''), (['' '', ''(''], ''Part''),
                  (['':'', '' ''], ''iv'')]"

definition exampleMarks :: "string list" where
  "exampleMarks = ['')'', ''.'']"

definition exampleTokens :: "(string list \<times> string) list" where
  "exampleTokens = [(['' ''], ''R&D''), ([emDash, '' ''], ''Group''), ([''-''], ''I/II'')]"

section \<open>Count maps\<close>

lemma nonTotalFingerprints_simps:
  "nonTotalFingerprints pa [] = []"
  "nonTotalFingerprints pa (c # cs) =
     (if isTotalCourse c then nonTotalFingerprints pa cs
      else fingerprint pa c # nonTotalFingerprints pa cs)"
  by (simp_all add: nonTotalFingerprints_def)

lemma makeCountMapLoop_count:
  "map_option count (map_of (makeCountMapLoop pa arr m) k) =
     (let n = count_list (nonTotalFingerprints pa arr) k
      in case map_of m k of Some e \<Rightarrow> Some (count e + n)
         | None \<Rightarrow> if n = 0 then None else Some n)"
proof (induction arr arbitrary: m)
  case Nil
  then show ?case by (simp add: nonTotalFingerprints_simps split: option.splits)
next
  case (Cons c arr)
  show ?case
  proof (cases "isTotalCourse c")
    case True
    then show ?thesis using Cons.IH [of m] by (simp add: nonTotalFingerprints_simps)
  next
    case False
    then show ?thesis
      by (simp add: nonTotalFingerprints_simps Cons.IH Let_def update_conv' split: option.splits)
  qed
qed

lemma makeCountMapLoop_keys:
  "fst ` set (makeCountMapLoop pa arr m) = fst ` set m \<union> set (nonTotalFingerprints pa arr)"
proof (induction arr arbitrary: m)
  case Nil
  then show ?case by (simp add: nonTotalFingerprints_simps)
next
  case (Cons c arr)
  show ?case
  proof (cases "isTotalCourse c")
    case True
    then show ?thesis by (simp add: nonTotalFingerprints_simps Cons.IH)
  next
    case False
    then show ?thesis
      by (simp add: nonTotalFingerprints_simps Cons.IH Let_def dom_update Un_assoc)
  qed
qed

lemma makeCountMapLoop_distinct:
  "distinct (map fst m) \<Longrightarrow> distinct (map fst (makeCountMapLoop pa arr m))"
  by (induction arr arbitrary: m) (simp_all add: Let_def distinct_update)

lemma set_update_subset: "set (AList.update k v al) \<subseteq> insert (k, v) (set al)"
  by (induct al) auto

lemma makeCountMapLoop_sample:
  "(\<forall>(k, e) \<in> set m. fingerprint pa (sample e) = k \<and> \<not> isTotalCourse (sample e)) \<Longrightarrow>
   (\<forall>(k, e) \<in> set (makeCountMapLoop pa arr m). fingerprint pa (sample e) = k \<and> \<not> isTotalCourse (sample e))"
proof (induction arr arbitrary: m)
  case Nil
  then show ?case by simp
next
  case (Cons c arr)
  show ?case
  proof (cases "isTotalCourse c")
    case True
    then show ?thesis using Cons by simp
  next
    case False
    let ?key = "fingerprint pa c"
    let ?e0 = "case map_of m ?key of Some e \<Rightarrow> e | None \<Rightarrow> \<lparr>count = 0, sample = c\<rparr>"
    let ?m' = "AList.update ?key (?e0\<lparr>count := count ?e0 + 1\<rparr>) m"
    have "\<forall>(k, e) \<in> set ?m'. fingerprint pa (sample e) = k \<and> \<not> isTotalCourse (sample e)"
    proof -
      have e0: "fingerprint pa (sample ?e0) = ?key \<and> \<not> isTotalCourse (sample ?e0)"
        using Cons.prems False by (auto split: option.splits dest!: map_of_SomeD)
      have "set ?m' \<subseteq> insert (?key, ?e0\<lparr>count := count ?e0 + 1\<rparr>) (set m)"
        by (rule set_update_subset)
      then show ?thesis using Cons.prems e0 by auto
    qed
    from Cons.IH [OF this] False show ?thesis by (simp add: Let_def)
  qed
qed

lemma validLoop_eq:
  "validLoop fMap vMap (ms, cms) = (ms @ missingOf fMap vMap, cms @ mismatchOf fMap vMap)"
  by (induction vMap arbitrary: ms cms)
     (auto simp: missingOf_def mismatchOf_def List.map_filter_simps split: option.splits if_splits)

lemma extraLoop_eq: "extraLoop vMap fMap es = es @ missingOf vMap fMap"
  by (induction fMap arbitrary: es) (auto simp: missingOf_def)

lemma remainingMissing_eq:
  "remainingMissing ms i pm ds = ds @ remainingMissing ms i pm []"
proof (induction ms arbitrary: i ds)
  case Nil
  then show ?case by simp
next
  case (Cons m ms)
  show ?case
    using Cons.IH [of "Suc i" "ds @ [MissingInFetched (count (snd m)) (sample (snd m))]"]
          Cons.IH [of "Suc i" "[MissingInFetched (count (snd m)) (sample (snd m))]"]
          Cons.IH [of "Suc i" ds]
    by simp
qed

lemma remainingExtra_eq:
  "remainingExtra es j pe ds = ds @ remainingExtra es j pe []"
proof (induction es arbitrary: j ds)
  case Nil
  then show ?case by simp
next
  case (Cons e es)
  show ?case
    using Cons.IH [of "Suc j" "ds @ [ExtraInFetched (count (snd e)) (sample (snd e))]"]
          Cons.IH [of "Suc j" "[ExtraInFetched (count (snd e)) (sample (snd e))]"]
          Cons.IH [of "Suc j" ds]
    by simp
qed

lemma compareSemesters_decomp:
  "compareSemesters pa f v =
     (let fMap = makeCountMap pa (coursesOf f);
          vMap = makeCountMap pa (coursesOf v);
          st = outerLoop pa (missingOf fMap vMap) 0 (missingOf vMap fMap) ([], {}, {})
      in fst st
         @ remainingMissing (missingOf fMap vMap) 0 (fst (snd st)) []
         @ remainingExtra (missingOf vMap fMap) 0 (snd (snd st)) []
         @ map (\<lambda>(c, fetchedCount, validCount). CountMismatch c fetchedCount validCount)
             (mismatchOf fMap vMap))"
  unfolding compareSemesters_def Let_def validLoop_eq extraLoop_eq
  by (simp add: case_prod_beta remainingMissing_eq [of _ _ _ "fst _"]
        remainingExtra_eq [of _ _ _ "_ @ _"])

lemma makeCountMap_count:
  "map_option count (map_of (makeCountMap pa arr) k) =
     (if count_list (nonTotalFingerprints pa arr) k = 0 then None
      else Some (count_list (nonTotalFingerprints pa arr) k))"
  by (simp add: makeCountMap_def makeCountMapLoop_count Let_def)

lemma mset_count_list: "mset xs = mset ys \<Longrightarrow> count_list xs k = count_list ys k"
  by (metis count_mset)

lemma missingOf_same:
  assumes "mset (nonTotalFingerprints pa xs) = mset (nonTotalFingerprints pa ys)"
  shows "missingOf (makeCountMap pa xs) (makeCountMap pa ys) = []"
proof -
  have "map_of (makeCountMap pa xs) k \<noteq> None" if "(k, e) \<in> set (makeCountMap pa ys)" for k e
  proof -
    from that have "k \<in> fst ` set (makeCountMap pa ys)" by force
    then have "k \<in> set (nonTotalFingerprints pa ys)"
      by (simp add: makeCountMap_def makeCountMapLoop_keys)
    then have "k \<in> set (nonTotalFingerprints pa xs)"
      using assms by (metis set_mset_mset)
    then have "k \<in> fst ` set (makeCountMap pa xs)"
      by (simp add: makeCountMap_def makeCountMapLoop_keys)
    then show ?thesis by (simp add: map_of_eq_None_iff)
  qed
  then show ?thesis by (auto simp: missingOf_def filter_empty_conv)
qed

lemma map_filter_empty_iff: "List.map_filter f xs = [] \<longleftrightarrow> (\<forall>x \<in> set xs. f x = None)"
  by (induction xs) (auto simp: List.map_filter_simps split: option.splits)

lemma makeCountMap_lookup:
  assumes "map_of (makeCountMap pa arr) k = Some e"
  shows "count e = count_list (nonTotalFingerprints pa arr) k"
proof -
  from assms have "map_option count (map_of (makeCountMap pa arr) k) = Some (count e)"
    by simp
  then have "(if count_list (nonTotalFingerprints pa arr) k = 0 then None
              else Some (count_list (nonTotalFingerprints pa arr) k)) = Some (count e)"
    by (simp only: makeCountMap_count)
  then show ?thesis
    by (metis option.distinct(1) option.inject)
qed

lemma makeCountMap_distinct: "distinct (map fst (makeCountMap pa arr))"
  by (simp add: makeCountMap_def makeCountMapLoop_distinct)

lemma mismatchOf_same:
  assumes "mset (nonTotalFingerprints pa xs) = mset (nonTotalFingerprints pa ys)"
  shows "mismatchOf (makeCountMap pa xs) (makeCountMap pa ys) = []"
proof -
  have eq: "count fe = count ve"
    if "(k, ve) \<in> set (makeCountMap pa ys)" and "map_of (makeCountMap pa xs) k = Some fe" for k ve fe
  proof -
    from that(1) have "map_of (makeCountMap pa ys) k = Some ve"
      using makeCountMap_distinct [of pa ys] by simp
    then have "count ve = count_list (nonTotalFingerprints pa ys) k"
      by (rule makeCountMap_lookup)
    also have "\<dots> = count_list (nonTotalFingerprints pa xs) k"
      by (rule mset_count_list [OF assms, symmetric])
    also have "\<dots> = count fe"
      by (rule makeCountMap_lookup [OF that(2), symmetric])
    finally show ?thesis by (rule sym)
  qed
  show ?thesis
    unfolding mismatchOf_def map_filter_empty_iff
  proof
    fix x assume x: "x \<in> set (makeCountMap pa ys)"
    obtain k ve where kv: "x = (k, ve)" by (cases x)
    show "(case x of (k, vEntry) \<Rightarrow> case map_of (makeCountMap pa xs) k of None \<Rightarrow> None
        | Some fEntry \<Rightarrow> if count fEntry \<noteq> count vEntry
                        then Some (sample vEntry, count fEntry, count vEntry) else None) = None"
    proof (cases "map_of (makeCountMap pa xs) k")
      case None
      then show ?thesis by (simp add: kv)
    next
      case (Some fe)
      from x have "count fe = count ve" unfolding kv using Some by (rule eq)
      with Some show ?thesis by (simp add: kv)
    qed
  qed
qed

section \<open>Multiset symmetry\<close>

text \<open>
  C1. If the live term and the reference term hold the same fingerprints with the same
  multiplicities, total markers and order set aside, \<open>compareSemesters\<close> returns the
  empty diff list. This holds for both tools.
\<close>

theorem multiset_symmetry:
  assumes "mset (nonTotalFingerprints pa (coursesOf fetchedSem))
         = mset (nonTotalFingerprints pa (coursesOf validSem))"
  shows "compareSemesters pa fetchedSem validSem = []"
  unfolding compareSemesters_decomp Let_def
  by (simp add: missingOf_same [OF assms] missingOf_same [OF assms [symmetric]]
        mismatchOf_same [OF assms])

theorem multiset_symmetry_witness:
  "mset (nonTotalFingerprints True (coursesOf \<lparr>name = ''Semester 1'', courses = Some
      [\<lparr>serial = Some ''1'', code = Some ''CS101'', title = Some ''Programming'', credits = Some ''3+1'', prerequisite = None\<rparr>,
       \<lparr>serial = Some ''2'', code = Some ''MT100'', title = Some ''Calculus'', credits = Some ''3'', prerequisite = None\<rparr>,
       \<lparr>serial = None, code = None, title = Some ''Total'', credits = Some ''7'', prerequisite = None\<rparr>]\<rparr>))
   = mset (nonTotalFingerprints True (coursesOf \<lparr>name = ''Semester 1'', courses = Some
      [\<lparr>serial = None, code = Some ''mt100'', title = Some ''Calculus I'', credits = Some '' 3'', prerequisite = None\<rparr>,
       \<lparr>serial = None, code = Some ''CS101'', title = None, credits = Some ''3+1'', prerequisite = Some ''none''\<rparr>]\<rparr>))
   \<and> compareSemesters True \<lparr>name = ''Semester 1'', courses = Some
      [\<lparr>serial = Some ''1'', code = Some ''CS101'', title = Some ''Programming'', credits = Some ''3+1'', prerequisite = None\<rparr>,
       \<lparr>serial = Some ''2'', code = Some ''MT100'', title = Some ''Calculus'', credits = Some ''3'', prerequisite = None\<rparr>,
       \<lparr>serial = None, code = None, title = Some ''Total'', credits = Some ''7'', prerequisite = None\<rparr>]\<rparr>
     \<lparr>name = ''Semester 1'', courses = Some
      [\<lparr>serial = None, code = Some ''mt100'', title = Some ''Calculus I'', credits = Some '' 3'', prerequisite = None\<rparr>,
       \<lparr>serial = None, code = Some ''CS101'', title = None, credits = Some ''3+1'', prerequisite = Some ''none''\<rparr>]\<rparr> = []"
proof -
  have a: "nonTotalFingerprints True (coursesOf \<lparr>name = ''Semester 1'', courses = Some
      [\<lparr>serial = Some ''1'', code = Some ''CS101'', title = Some ''Programming'', credits = Some ''3+1'', prerequisite = None\<rparr>,
       \<lparr>serial = Some ''2'', code = Some ''MT100'', title = Some ''Calculus'', credits = Some ''3'', prerequisite = None\<rparr>,
       \<lparr>serial = None, code = None, title = Some ''Total'', credits = Some ''7'', prerequisite = None\<rparr>]\<rparr>)
     = [''CS101|3+1|'', ''MT100|3|'']"
    by code_simp
  have b: "nonTotalFingerprints True (coursesOf \<lparr>name = ''Semester 1'', courses = Some
      [\<lparr>serial = None, code = Some ''mt100'', title = Some ''Calculus I'', credits = Some '' 3'', prerequisite = None\<rparr>,
       \<lparr>serial = None, code = Some ''CS101'', title = None, credits = Some ''3+1'', prerequisite = Some ''none''\<rparr>]\<rparr>)
     = [''MT100|3|'', ''CS101|3+1|'']"
    by code_simp
  have h: "mset (nonTotalFingerprints True (coursesOf \<lparr>name = ''Semester 1'', courses = Some
      [\<lparr>serial = Some ''1'', code = Some ''CS101'', title = Some ''Programming'', credits = Some ''3+1'', prerequisite = None\<rparr>,
       \<lparr>serial = Some ''2'', code = Some ''MT100'', title = Some ''Calculus'', credits = Some ''3'', prerequisite = None\<rparr>,
       \<lparr>serial = None, code = None, title = Some ''Total'', credits = Some ''7'', prerequisite = None\<rparr>]\<rparr>))
   = mset (nonTotalFingerprints True (coursesOf \<lparr>name = ''Semester 1'', courses = Some
      [\<lparr>serial = None, code = Some ''mt100'', title = Some ''Calculus I'', credits = Some '' 3'', prerequisite = None\<rparr>,
       \<lparr>serial = None, code = Some ''CS101'', title = None, credits = Some ''3+1'', prerequisite = Some ''none''\<rparr>]\<rparr>))"
    by (simp only: a b) (simp add: add_mset_commute)
  from h multiset_symmetry [OF h] show ?thesis by (rule conjI)
qed

lemma innerLoop_shape:
  "\<exists>ds' pm1 pe'. innerLoop pa m i es j (ds, pm, pe) = (ds @ ds', pm1, pe')
     \<and> (ds' = [] \<or> (\<exists>e \<in> set es. ds' = [PrerequisiteMismatch (sample (snd e)) m]
                                   \<or> ds' = [CodeMismatch (sample (snd e)) m]))"
proof (induction es arbitrary: j)
  case Nil
  show ?case by simp
next
  case (Cons e es)
  from Cons [of "Suc j"] obtain ds' pm1 pe' where
    ih: "innerLoop pa m i es (Suc j) (ds, pm, pe) = (ds @ ds', pm1, pe')"
        "ds' = [] \<or> (\<exists>e \<in> set es. ds' = [PrerequisiteMismatch (sample (snd e)) m]
                                   \<or> ds' = [CodeMismatch (sample (snd e)) m])"
    by blast
  have "innerLoop pa m i (e # es) j (ds, pm, pe) = innerLoop pa m i es (Suc j) (ds, pm, pe)
      \<or> innerLoop pa m i (e # es) j (ds, pm, pe)
         = (ds @ [PrerequisiteMismatch (sample (snd e)) m], insert i pm, insert j pe)
      \<or> innerLoop pa m i (e # es) j (ds, pm, pe)
         = (ds @ [CodeMismatch (sample (snd e)) m], insert i pm, insert j pe)"
    by (simp add: Let_def)
  then consider (skip) "innerLoop pa m i (e # es) j (ds, pm, pe) = innerLoop pa m i es (Suc j) (ds, pm, pe)"
    | (pre) "innerLoop pa m i (e # es) j (ds, pm, pe)
         = (ds @ [PrerequisiteMismatch (sample (snd e)) m], insert i pm, insert j pe)"
    | (cod) "innerLoop pa m i (e # es) j (ds, pm, pe)
         = (ds @ [CodeMismatch (sample (snd e)) m], insert i pm, insert j pe)"
    by blast
  then show ?case
  proof cases
    case skip
    show ?thesis
      unfolding skip ih(1) using ih(2) by (intro exI [of _ ds'] exI [of _ pm1] exI [of _ pe']) auto
  next
    case pre
    show ?thesis unfolding pre
      by (intro exI [of _ "[PrerequisiteMismatch (sample (snd e)) m]"] exI [of _ "insert i pm"] exI [of _ "insert j pe"]) simp
  next
    case cod
    show ?thesis unfolding cod
      by (intro exI [of _ "[CodeMismatch (sample (snd e)) m]"] exI [of _ "insert i pm"] exI [of _ "insert j pe"]) simp
  qed
qed

lemma outerLoop_shape:
  "\<exists>ps pm' pe'. outerLoop pa ms i es (ds, pm, pe) = (ds @ ps, pm', pe')
     \<and> subseq (map (diffKey pa) ps) (map (\<lambda>m. fingerprint pa (sample (snd m))) ms)
     \<and> (\<forall>d \<in> set ps. isPaired d
            \<and> set (diffCourses d) \<subseteq> (\<lambda>m. sample (snd m)) ` (set ms \<union> set es))"
proof (induction ms arbitrary: i ds pm pe)
  case Nil
  show ?case by simp
next
  case (Cons m ms)
  obtain ds' pm1 pe' where
    inner: "innerLoop pa (sample (snd m)) i es 0 (ds, pm, pe)
              = (ds @ ds', pm1, pe')"
      and ds': "ds' = [] \<or> (\<exists>e \<in> set es. ds' = [PrerequisiteMismatch (sample (snd e)) (sample (snd m))]
                                   \<or> ds' = [CodeMismatch (sample (snd e)) (sample (snd m))])"
    using innerLoop_shape [of pa "sample (snd m)" i es 0 ds pm pe] by blast
  obtain ps pm' pe'' where
    outer: "outerLoop pa ms (Suc i) es (ds @ ds', pm1, pe')
              = ((ds @ ds') @ ps, pm', pe'')"
      and sub: "subseq (map (diffKey pa) ps) (map (\<lambda>m. fingerprint pa (sample (snd m))) ms)"
      and all: "\<forall>d \<in> set ps. isPaired d
            \<and> set (diffCourses d) \<subseteq> (\<lambda>m. sample (snd m)) ` (set ms \<union> set es)"
    using Cons [of "Suc i" "ds @ ds'" pm1 pe'] by blast
  have eq: "outerLoop pa (m # ms) i es (ds, pm, pe) = (ds @ (ds' @ ps), pm', pe'')"
    by (simp add: inner outer)
  have sub': "subseq (map (diffKey pa) (ds' @ ps)) (map (\<lambda>m. fingerprint pa (sample (snd m))) (m # ms))"
    using ds' sub by (auto intro: subseq_Cons')
  have all': "\<forall>d \<in> set (ds' @ ps). isPaired d
            \<and> set (diffCourses d) \<subseteq> (\<lambda>m. sample (snd m)) ` (set (m # ms) \<union> set es)"
    using ds' all by (force simp: isPaired_def)
  from eq sub' all' show ?case by blast
qed

lemma subseq_set: "subseq xs ys \<Longrightarrow> set xs \<subseteq> set ys"
  by (induction rule: list_emb.induct) auto

lemma remainingMissing_subseq:
  "subseq (remainingMissing ms i pm [])
          (map (\<lambda>m. MissingInFetched (count (snd m)) (sample (snd m))) ms)"
proof (induction ms arbitrary: i)
  case Nil
  show ?case by simp
next
  case (Cons m ms)
  show ?case
  proof (cases "i \<in> pm")
    case True
    then show ?thesis using Cons [of "Suc i"] by (simp add: list_emb_Cons)
  next
    case False
    then have "remainingMissing (m # ms) i pm []
        = [MissingInFetched (count (snd m)) (sample (snd m))] @ remainingMissing ms (Suc i) pm []"
      using remainingMissing_eq [of ms "Suc i" pm "[MissingInFetched (count (snd m)) (sample (snd m))]"]
      by simp
    then show ?thesis using Cons [of "Suc i"] by simp
  qed
qed

lemma remainingExtra_subseq:
  "subseq (remainingExtra es j pe [])
          (map (\<lambda>e. ExtraInFetched (count (snd e)) (sample (snd e))) es)"
proof (induction es arbitrary: j)
  case Nil
  show ?case by simp
next
  case (Cons e es)
  show ?case
  proof (cases "j \<in> pe")
    case True
    then show ?thesis using Cons [of "Suc j"] by (simp add: list_emb_Cons)
  next
    case False
    then have "remainingExtra (e # es) j pe []
        = [ExtraInFetched (count (snd e)) (sample (snd e))] @ remainingExtra es (Suc j) pe []"
      using remainingExtra_eq [of es "Suc j" pe "[ExtraInFetched (count (snd e)) (sample (snd e))]"]
      by simp
    then show ?thesis using Cons [of "Suc j"] by simp
  qed
qed

text \<open>Every entry of a count map is filed under the fingerprint of its sample.\<close>

lemma makeCountMap_sample:
  "(k, e) \<in> set (makeCountMap pa arr) \<Longrightarrow> fingerprint pa (sample e) = k \<and> \<not> isTotalCourse (sample e)"
  using makeCountMapLoop_sample [of "[]" pa arr] by (auto simp: makeCountMap_def)

lemma missingOf_subset: "set (missingOf a b) \<subseteq> set b"
  by (auto simp: missingOf_def)




section \<open>Output ordering\<close>



lemma makeCountMapLoop_sample_kept:
  "map_of m k = Some e0 \<Longrightarrow>
   \<exists>e. map_of (makeCountMapLoop pa arr m) k = Some e \<and> sample e = sample e0"
proof (induction arr arbitrary: m e0)
  case Nil
  then show ?case by simp
next
  case (Cons c arr)
  show ?case
  proof (cases "isTotalCourse c")
    case True
    then show ?thesis using Cons.IH [OF Cons.prems] by simp
  next
    case False
    let ?key = "fingerprint pa c"
    let ?e0 = "case map_of m ?key of Some e \<Rightarrow> e | None \<Rightarrow> \<lparr>count = 0, sample = c\<rparr>"
    let ?m' = "AList.update ?key (?e0\<lparr>count := count ?e0 + 1\<rparr>) m"
    have "\<exists>e1. map_of ?m' k = Some e1 \<and> sample e1 = sample e0"
      using Cons.prems by (cases "k = ?key") (simp_all add: update_conv')
    then obtain e1 where "map_of ?m' k = Some e1" "sample e1 = sample e0" by blast
    from Cons.IH [OF this(1)] this(2) False show ?thesis by (simp add: Let_def)
  qed
qed

lemma makeCountMapLoop_sample_first:
  "map_of m k = None \<Longrightarrow> map_of (makeCountMapLoop pa arr m) k = Some e \<Longrightarrow>
   find (\<lambda>c. \<not> isTotalCourse c \<and> fingerprint pa c = k) arr = Some (sample e)"
proof (induction arr arbitrary: m)
  case Nil
  then show ?case by simp
next
  case (Cons c arr)
  show ?case
  proof (cases "isTotalCourse c")
    case True
    then show ?thesis using Cons.IH [of m] Cons.prems by simp
  next
    case False
    let ?key = "fingerprint pa c"
    let ?e0 = "case map_of m ?key of Some e \<Rightarrow> e | None \<Rightarrow> \<lparr>count = 0, sample = c\<rparr>"
    let ?m' = "AList.update ?key (?e0\<lparr>count := count ?e0 + 1\<rparr>) m"
    have loop: "makeCountMapLoop pa (c # arr) m = makeCountMapLoop pa arr ?m'"
      using False by (simp add: Let_def)
    show ?thesis
    proof (cases "k = ?key")
      case True
      have "map_of ?m' k = Some (?e0\<lparr>count := count ?e0 + 1\<rparr>)"
        by (simp add: True update_conv')
      from makeCountMapLoop_sample_kept [OF this, of pa arr] Cons.prems(2)
      have "sample e = sample (?e0\<lparr>count := count ?e0 + 1\<rparr>)"
        unfolding loop by auto
      also have "\<dots> = c" using Cons.prems(1) True by simp
      finally show ?thesis using False True by simp
    next
      case neq: False
      then have "map_of ?m' k = None" using Cons.prems(1) by (simp add: update_conv')
      from Cons.IH [OF this] Cons.prems(2) neq False show ?thesis
        unfolding loop by auto
    qed
  qed
qed

lemma makeCountMap_sample_first:
  "map_of (makeCountMap pa arr) k = Some e \<Longrightarrow>
   find (\<lambda>c. \<not> isTotalCourse c \<and> fingerprint pa c = k) arr = Some (sample e)"
  unfolding makeCountMap_def by (rule makeCountMapLoop_sample_first) simp_all

lemma makeCountMap_present:
  assumes "count_list (nonTotalFingerprints pa arr) k = n" and "n \<noteq> 0"
  shows "\<exists>e. map_of (makeCountMap pa arr) k = Some e \<and> count e = n"
proof -
  have "map_option count (map_of (makeCountMap pa arr) k) = Some n"
    using assms by (simp add: makeCountMap_count)
  then show ?thesis by (cases "map_of (makeCountMap pa arr) k") auto
qed

lemma mismatchOf_without:
  assumes "\<forall>(k', e) \<in> set vMap. fingerprint pa (sample e) = k'" and "k \<notin> fst ` set vMap"
  shows "filter (\<lambda>t. fingerprint pa (fst t) = k) (mismatchOf fMap vMap) = []"
  using assms
proof (induction vMap)
  case Nil
  show ?case by (simp add: mismatchOf_def List.map_filter_simps)
next
  case (Cons x vMap)
  obtain k' e where x: "x = (k', e)" by (cases x)
  from Cons.prems have k: "fingerprint pa (sample e) = k'" "k' \<noteq> k" by (auto simp: x)
  from Cons have ih: "filter (\<lambda>t. fingerprint pa (fst t) = k) (mismatchOf fMap vMap) = []" by simp
  show ?case using ih k
    by (auto simp: x mismatchOf_def List.map_filter_simps split: option.splits)
qed

lemma mismatchOf_with:
  assumes "\<forall>(k', e) \<in> set vMap. fingerprint pa (sample e) = k'"
      and "distinct (map fst vMap)"
      and "map_of vMap k = Some ve" and "map_of fMap k = Some fe" and "count fe \<noteq> count ve"
  shows "filter (\<lambda>t. fingerprint pa (fst t) = k) (mismatchOf fMap vMap)
           = [(sample ve, count fe, count ve)]"
  using assms(1-3)
proof (induction vMap)
  case Nil
  then show ?case by simp
next
  case (Cons x vMap)
  obtain k' e where x: "x = (k', e)" by (cases x)
  from Cons.prems(1) have inv: "\<forall>(k', e) \<in> set vMap. fingerprint pa (sample e) = k'"
    and k': "fingerprint pa (sample e) = k'" by (auto simp: x)
  from Cons.prems(2) have dist: "distinct (map fst vMap)" and notin: "k' \<notin> fst ` set vMap"
    by (auto simp: x)
  have unfold: "mismatchOf fMap (x # vMap) =
      (case map_of fMap k' of None \<Rightarrow> mismatchOf fMap vMap
       | Some f \<Rightarrow> if count f \<noteq> count e then (sample e, count f, count e) # mismatchOf fMap vMap
                   else mismatchOf fMap vMap)"
    by (simp add: x mismatchOf_def List.map_filter_simps split: option.splits)
  show ?case
  proof (cases "k' = k")
    case True
    with Cons.prems(3) have e: "e = ve" by (simp add: x)
    have "filter (\<lambda>t. fingerprint pa (fst t) = k) (mismatchOf fMap vMap) = []"
      using inv notin True by (intro mismatchOf_without) auto
    then show ?thesis
      unfolding unfold using True e assms(4,5) k' by simp
  next
    case False
    with Cons.prems(3) have "map_of vMap k = Some ve" by (simp add: x)
    from Cons.IH [OF inv dist this] False k' show ?thesis
      unfolding unfold by (simp split: option.splits)
  qed
qed

lemma missingOf_key: "map_of a k \<noteq> None \<Longrightarrow> k \<notin> fst ` set (missingOf a b)"
  by (auto simp: missingOf_def)

lemma candidate_not_mentioned:
  assumes "m \<in> set (missingOf a (makeCountMap pa arr))" and "map_of a k \<noteq> None"
  shows "fingerprint pa (sample (snd m)) \<noteq> k"
proof -
  from assms(1) have "(fst m, snd m) \<in> set (makeCountMap pa arr)"
    using missingOf_subset [of a "makeCountMap pa arr"] by auto
  then have "fingerprint pa (sample (snd m)) = fst m" by (simp add: makeCountMap_sample)
  moreover have "fst m \<noteq> k" using missingOf_key [OF assms(2), of "makeCountMap pa arr"] assms(1) by auto
  ultimately show ?thesis by simp
qed

section \<open>Count sensitivity\<close>

text \<open>
  C3. When a fingerprint stands twice among the reference term's courses and once among
  the live term's (total markers set aside), exactly one entry of the diff list carries
  a course of that fingerprint: the count-mismatch with the first reference course of
  the fingerprint, \<open>fetchedCount = 1\<close> and \<open>validCount = 2\<close>. The fingerprint is on
  neither candidate list, so no missing, extra or paired entry has it.
\<close>

theorem count_sensitivity:
  assumes v: "count_list (nonTotalFingerprints pa (coursesOf validSem)) k = 2"
      and f: "count_list (nonTotalFingerprints pa (coursesOf fetchedSem)) k = 1"
  shows "\<exists>x. find (\<lambda>c. \<not> isTotalCourse c \<and> fingerprint pa c = k) (coursesOf validSem) = Some x
           \<and> filter (mentions pa k) (compareSemesters pa fetchedSem validSem) = [CountMismatch x 1 2]
           \<and> k \<notin> fst ` set (fst (validLoop (makeCountMap pa (coursesOf fetchedSem))
                                           (makeCountMap pa (coursesOf validSem)) ([], [])))
           \<and> k \<notin> fst ` set (extraLoop (makeCountMap pa (coursesOf validSem))
                                        (makeCountMap pa (coursesOf fetchedSem)) [])"
proof -
  let ?fMap = "makeCountMap pa (coursesOf fetchedSem)"
  let ?vMap = "makeCountMap pa (coursesOf validSem)"
  let ?mList = "missingOf ?fMap ?vMap"
  let ?eList = "missingOf ?vMap ?fMap"
  let ?mk = "\<lambda>m::candidate. MissingInFetched (count (snd m)) (sample (snd m))"
  let ?ek = "\<lambda>e::candidate. ExtraInFetched (count (snd e)) (sample (snd e))"
  obtain ve where ve: "map_of ?vMap k = Some ve" "count ve = 2"
    using makeCountMap_present [OF v] by auto
  obtain fe where fe: "map_of ?fMap k = Some fe" "count fe = 1"
    using makeCountMap_present [OF f] by auto
  have first: "find (\<lambda>c. \<not> isTotalCourse c \<and> fingerprint pa c = k) (coursesOf validSem)
                 = Some (sample ve)"
    using ve(1) by (rule makeCountMap_sample_first)
  have ml: "fingerprint pa (sample (snd m)) \<noteq> k" if "m \<in> set ?mList" for m
    using that by (rule candidate_not_mentioned) (simp add: fe)
  have el: "fingerprint pa (sample (snd m)) \<noteq> k" if "m \<in> set ?eList" for m
    using that by (rule candidate_not_mentioned) (simp add: ve)
  obtain ps pm pe where
    outer: "outerLoop pa ?mList 0 ?eList ([], {}, {}) = ([] @ ps, pm, pe)"
    and ps_all: "\<forall>d \<in> set ps. isPaired d
            \<and> set (diffCourses d) \<subseteq> (\<lambda>m. sample (snd m)) ` (set ?mList \<union> set ?eList)"
    using outerLoop_shape [of pa ?mList 0 ?eList "[]" "{}" "{}"] by blast
  let ?M = "remainingMissing ?mList 0 pm []"
  let ?E = "remainingExtra ?eList 0 pe []"
  let ?C = "map (\<lambda>(c, fetchedCount, validCount). CountMismatch c fetchedCount validCount)
              (mismatchOf ?fMap ?vMap)"
  have eq: "compareSemesters pa fetchedSem validSem = ps @ ?M @ ?E @ ?C"
    by (simp add: compareSemesters_decomp Let_def outer)
  have "\<not> mentions pa k d" if "d \<in> set ps" for d
  proof
    assume "mentions pa k d"
    then obtain c where c: "c \<in> set (diffCourses d)" "fingerprint pa c = k"
      by (auto simp: mentions_def)
    with ps_all that obtain m where m: "m \<in> set ?mList \<union> set ?eList" "c = sample (snd m)" by blast
    from m(1) have "fingerprint pa (sample (snd m)) \<noteq> k" using ml [of m] el [of m] by blast
    with m(2) c(2) show False by simp
  qed
  then have fp: "filter (mentions pa k) ps = []" by (simp add: filter_empty_conv)
  have "\<not> mentions pa k d" if "d \<in> set ?M" for d
  proof -
    from that subseq_set [OF remainingMissing_subseq [of ?mList 0 pm]]
    obtain m where m: "m \<in> set ?mList" "d = ?mk m" by auto
    from ml [OF m(1)] show ?thesis by (simp add: mentions_def m(2))
  qed
  then have fm: "filter (mentions pa k) ?M = []" by (simp add: filter_empty_conv)
  have "\<not> mentions pa k d" if "d \<in> set ?E" for d
  proof -
    from that subseq_set [OF remainingExtra_subseq [of ?eList 0 pe]]
    obtain m where m: "m \<in> set ?eList" "d = ?ek m" by auto
    from el [OF m(1)] show ?thesis by (simp add: mentions_def m(2))
  qed
  then have fe': "filter (mentions pa k) ?E = []" by (simp add: filter_empty_conv)
  have inv: "\<forall>(k', e) \<in> set ?vMap. fingerprint pa (sample e) = k'"
    using makeCountMap_sample by blast
  have "filter (\<lambda>t. fingerprint pa (fst t) = k) (mismatchOf ?fMap ?vMap)
          = [(sample ve, count fe, count ve)]"
    using inv makeCountMap_distinct ve(1) fe(1) by (rule mismatchOf_with) (simp add: ve fe)
  moreover have "filter (mentions pa k) ?C
      = map (\<lambda>(c, fetchedCount, validCount). CountMismatch c fetchedCount validCount)
          (filter (\<lambda>t. fingerprint pa (fst t) = k) (mismatchOf ?fMap ?vMap))"
    by (simp add: filter_map comp_def mentions_def case_prod_beta)
  ultimately have fc: "filter (mentions pa k) ?C = [CountMismatch (sample ve) 1 2]"
    by (simp add: ve fe)
  have res: "filter (mentions pa k) (compareSemesters pa fetchedSem validSem)
               = [CountMismatch (sample ve) 1 2]"
    unfolding eq filter_append fp fm fe' fc by simp
  have c1: "k \<notin> fst ` set (fst (validLoop ?fMap ?vMap ([], [])))"
    unfolding validLoop_eq using missingOf_key [of ?fMap k ?vMap] fe(1) by simp
  have c2: "k \<notin> fst ` set (extraLoop ?vMap ?fMap [])"
    unfolding extraLoop_eq using missingOf_key [of ?vMap k ?fMap] ve(1) by simp
  from first res c1 c2 show ?thesis by blast
qed

theorem count_sensitivity_witness:
  "count_list (nonTotalFingerprints True (coursesOf referenceTerm)) ''HU107|2|'' = 2
   \<and> count_list (nonTotalFingerprints True (coursesOf liveTerm)) ''HU107|2|'' = 1
   \<and> (\<exists>x. find (\<lambda>c. \<not> isTotalCourse c \<and> fingerprint True c = ''HU107|2|'') (coursesOf referenceTerm) = Some x
           \<and> filter (mentions True ''HU107|2|'') (compareSemesters True liveTerm referenceTerm) = [CountMismatch x 1 2]
           \<and> ''HU107|2|'' \<notin> fst ` set (fst (validLoop (makeCountMap True (coursesOf liveTerm))
                                           (makeCountMap True (coursesOf referenceTerm)) ([], [])))
           \<and> ''HU107|2|'' \<notin> fst ` set (extraLoop (makeCountMap True (coursesOf referenceTerm))
                                        (makeCountMap True (coursesOf liveTerm)) []))"
proof -
  have v: "count_list (nonTotalFingerprints True (coursesOf referenceTerm)) ''HU107|2|'' = 2"
    by code_simp
  have f: "count_list (nonTotalFingerprints True (coursesOf liveTerm)) ''HU107|2|'' = 1"
    by code_simp
  from v f count_sensitivity [OF v f] show ?thesis by (intro conjI)
qed

section \<open>Pairing on an empty title\<close>

lemma includesStr_empty: "includesStr s []"
  by (cases s) simp_all

lemma titlesSimilar_empty:
  assumes "falsy (title mCourse) \<or> falsy (title eCourse)"
  shows "titlesSimilar mCourse eCourse"
proof -
  from assms have "toLowerCase (orEmpty (title mCourse)) = [] \<or> toLowerCase (orEmpty (title eCourse)) = []"
    by (auto simp: falsy_def orEmpty_def toLowerCase_def)
  then have "includesStr (toLowerCase (orEmpty (title mCourse))) (toLowerCase (orEmpty (title eCourse)))
      \<or> includesStr (toLowerCase (orEmpty (title eCourse))) (toLowerCase (orEmpty (title mCourse)))"
    by (auto simp: includesStr_empty)
  then show ?thesis by (simp add: titlesSimilar_def Let_def)
qed

lemma makeCountMap_single:
  "\<not> isTotalCourse c \<Longrightarrow> makeCountMap pa [c] = [(fingerprint pa c, \<lparr>count = 1, sample = c\<rparr>)]"
  by (simp add: makeCountMap_def Let_def)

lemma innerLoop_step_empty:
  assumes "falsy (title mCourse) \<or> falsy (title (sample (snd e)))"
      and "normalizeCredits (credits mCourse) = normalizeCredits (credits (sample (snd e)))"
      and "j \<notin> pairedExtra"
  shows "innerLoop pa mCourse i (e # es) j (ds, pairedMissing, pairedExtra)
           = (ds @ [pairedDiff pa (sample (snd e)) mCourse], insert i pairedMissing, insert j pairedExtra)"
  using assms titlesSimilar_empty [OF assms(1)] by (simp add: Let_def pairedDiff_def)

lemma innerLoop_firstFit:
  assumes "falsy (title mCourse)"
  shows "innerLoop pa mCourse i es j (ds, pairedMissing, pairedExtra)
           = (case firstFit mCourse es j pairedExtra of
                None \<Rightarrow> (ds, pairedMissing, pairedExtra)
              | Some (k, eCourse) \<Rightarrow>
                  (ds @ [pairedDiff pa eCourse mCourse], insert i pairedMissing, insert k pairedExtra))"
proof (induction es arbitrary: j)
  case Nil
  show ?case by simp
next
  case (Cons e es)
  show ?case
  proof (cases "j \<notin> pairedExtra
         \<and> normalizeCredits (credits mCourse) = normalizeCredits (credits (sample (snd e)))")
    case True
    then have "innerLoop pa mCourse i (e # es) j (ds, pairedMissing, pairedExtra)
           = (ds @ [pairedDiff pa (sample (snd e)) mCourse], insert i pairedMissing, insert j pairedExtra)"
      using assms by (intro innerLoop_step_empty) simp_all
    moreover from True have "firstFit mCourse (e # es) j pairedExtra = Some (j, sample (snd e))"
      by simp
    ultimately show ?thesis by (simp only: option.case prod.case)
  next
    case False
    then have il: "innerLoop pa mCourse i (e # es) j (ds, pairedMissing, pairedExtra)
           = innerLoop pa mCourse i es (Suc j) (ds, pairedMissing, pairedExtra)"
      by (auto simp: Let_def)
    from False have ff: "firstFit mCourse (e # es) j pairedExtra = firstFit mCourse es (Suc j) pairedExtra"
      by auto
    show ?thesis unfolding il ff by (rule Cons.IH)
  qed
qed

text \<open>
  C9 (as amended). When the title of the missing candidate or of the extra candidate is
  absent or empty, the two titles count as similar, whatever the other title is. The
  pairing is first-fit: a missing candidate without a title is paired with the first
  extra candidate, in the order of the live map, that is not paired yet and has its
  normalized credits, whatever the titles of the extra candidates are; when there is no
  such candidate it stays unpaired. On reaching an extra candidate that is not paired
  yet, with equal credits and one of the two titles empty, the inner loop pairs the two.
  The entry pushed is a code-mismatch unless the prerequisite branch takes the pair
  (prerequisite-aware tool, equal codes, different prerequisite keys), which makes it a
  prerequisite-mismatch. A live term and a reference term that hold just two such
  courses compare to the one code-mismatch.
\<close>

theorem empty_title_pairing:
  "(falsy (title mCourse) \<or> falsy (title eCourse) \<longrightarrow> titlesSimilar mCourse eCourse)
   \<and> (falsy (title mCourse) \<longrightarrow>
        innerLoop pa mCourse i es j (ds, pairedMissing, pairedExtra)
          = (case firstFit mCourse es j pairedExtra of
               None \<Rightarrow> (ds, pairedMissing, pairedExtra)
             | Some (k, fitted) \<Rightarrow>
                 (ds @ [pairedDiff pa fitted mCourse], insert i pairedMissing, insert k pairedExtra)))
   \<and> ((falsy (title mCourse) \<or> falsy (title eCourse))
        \<and> normalizeCredits (credits mCourse) = normalizeCredits (credits eCourse)
        \<and> j \<notin> pairedExtra \<and> sample (snd e) = eCourse \<longrightarrow>
        innerLoop pa mCourse i (e # es) j (ds, pairedMissing, pairedExtra)
          = (ds @ [pairedDiff pa eCourse mCourse], insert i pairedMissing, insert j pairedExtra)
        \<and> (\<not> (pa \<and> normalizeCode (code mCourse) = normalizeCode (code eCourse)
                \<and> normalizePrereq (prerequisite mCourse) \<noteq> normalizePrereq (prerequisite eCourse))
            \<longrightarrow> pairedDiff pa eCourse mCourse = CodeMismatch eCourse mCourse))
   \<and> ((falsy (title mCourse) \<or> falsy (title eCourse))
        \<and> normalizeCredits (credits mCourse) = normalizeCredits (credits eCourse)
        \<and> \<not> (pa \<and> normalizeCode (code mCourse) = normalizeCode (code eCourse)
                \<and> normalizePrereq (prerequisite mCourse) \<noteq> normalizePrereq (prerequisite eCourse))
        \<and> \<not> isTotalCourse mCourse \<and> \<not> isTotalCourse eCourse
        \<and> fingerprint pa mCourse \<noteq> fingerprint pa eCourse \<longrightarrow>
        compareSemesters pa \<lparr>name = liveName, courses = Some [eCourse]\<rparr>
                            \<lparr>name = referenceName, courses = Some [mCourse]\<rparr>
          = [CodeMismatch eCourse mCourse])"
proof (intro conjI impI)
  show "titlesSimilar mCourse eCourse" if "falsy (title mCourse) \<or> falsy (title eCourse)"
    using that by (rule titlesSimilar_empty)
  show "innerLoop pa mCourse i es j (ds, pairedMissing, pairedExtra)
          = (case firstFit mCourse es j pairedExtra of
               None \<Rightarrow> (ds, pairedMissing, pairedExtra)
             | Some (k, fitted) \<Rightarrow>
                 (ds @ [pairedDiff pa fitted mCourse], insert i pairedMissing, insert k pairedExtra))"
    if "falsy (title mCourse)"
    using that by (rule innerLoop_firstFit)
  show "innerLoop pa mCourse i (e # es) j (ds, pairedMissing, pairedExtra)
          = (ds @ [pairedDiff pa eCourse mCourse], insert i pairedMissing, insert j pairedExtra)"
    if "(falsy (title mCourse) \<or> falsy (title eCourse))
        \<and> normalizeCredits (credits mCourse) = normalizeCredits (credits eCourse)
        \<and> j \<notin> pairedExtra \<and> sample (snd e) = eCourse"
    using that innerLoop_step_empty [of mCourse e j pairedExtra pa i es ds pairedMissing] by blast
  show "pairedDiff pa eCourse mCourse = CodeMismatch eCourse mCourse"
    if "\<not> (pa \<and> normalizeCode (code mCourse) = normalizeCode (code eCourse)
                \<and> normalizePrereq (prerequisite mCourse) \<noteq> normalizePrereq (prerequisite eCourse))"
    using that by (simp add: pairedDiff_def)
  show "compareSemesters pa \<lparr>name = liveName, courses = Some [eCourse]\<rparr>
                            \<lparr>name = referenceName, courses = Some [mCourse]\<rparr>
          = [CodeMismatch eCourse mCourse]"
    if h: "(falsy (title mCourse) \<or> falsy (title eCourse))
        \<and> normalizeCredits (credits mCourse) = normalizeCredits (credits eCourse)
        \<and> \<not> (pa \<and> normalizeCode (code mCourse) = normalizeCode (code eCourse)
                \<and> normalizePrereq (prerequisite mCourse) \<noteq> normalizePrereq (prerequisite eCourse))
        \<and> \<not> isTotalCourse mCourse \<and> \<not> isTotalCourse eCourse
        \<and> fingerprint pa mCourse \<noteq> fingerprint pa eCourse"
  proof -
    from h have sim: "titlesSimilar mCourse eCourse" by (intro titlesSimilar_empty) simp
    have f: "makeCountMap pa [eCourse] = [(fingerprint pa eCourse, \<lparr>count = 1, sample = eCourse\<rparr>)]"
      and v: "makeCountMap pa [mCourse] = [(fingerprint pa mCourse, \<lparr>count = 1, sample = mCourse\<rparr>)]"
      using h by (simp_all add: makeCountMap_single)
    show ?thesis
      unfolding compareSemesters_def coursesOf_def
      using h sim by (auto simp: f v Let_def)
  qed
qed

theorem empty_title_pairing_witness:
  "falsy (title untitledCourse)
   \<and> normalizeCredits (credits untitledCourse)
       = normalizeCredits (credits (mkCourse ''CS110'' ''Introduction to Programming'' ''3''))
   \<and> titlesSimilar untitledCourse (mkCourse ''CS110'' ''Introduction to Programming'' ''3'')
   \<and> firstFit untitledCourse
        [(''EE200|1|'', \<lparr>count = 1, sample = mkCourse ''EE200'' ''Circuits'' ''1''\<rparr>),
         (''CS110|3|'', \<lparr>count = 1, sample = mkCourse ''CS110'' ''Introduction to Programming'' ''3''\<rparr>),
         (''BI100|3|'', \<lparr>count = 1, sample = mkCourse ''BI100'' ''Biology'' ''3''\<rparr>)] 0 {}
       = Some (1, mkCourse ''CS110'' ''Introduction to Programming'' ''3'')
   \<and> innerLoop True untitledCourse 0
        [(''EE200|1|'', \<lparr>count = 1, sample = mkCourse ''EE200'' ''Circuits'' ''1''\<rparr>),
         (''CS110|3|'', \<lparr>count = 1, sample = mkCourse ''CS110'' ''Introduction to Programming'' ''3''\<rparr>),
         (''BI100|3|'', \<lparr>count = 1, sample = mkCourse ''BI100'' ''Biology'' ''3''\<rparr>)] 0 ([], {}, {})
       = ([CodeMismatch (mkCourse ''CS110'' ''Introduction to Programming'' ''3'') untitledCourse],
          {0}, {1})
   \<and> innerLoop True untitledCourse 0
        [(''CS110|3|'', \<lparr>count = 1, sample = mkCourse ''CS110'' ''Introduction to Programming'' ''3''\<rparr>)]
        0 ([], {}, {})
       = ([CodeMismatch (mkCourse ''CS110'' ''Introduction to Programming'' ''3'') untitledCourse],
          {0}, {0})
   \<and> compareSemesters True
        \<lparr>name = ''Semester 1'', courses = Some [mkCourse ''CS110'' ''Introduction to Programming'' ''3'']\<rparr>
        \<lparr>name = ''Semester 1'', courses = Some [untitledCourse]\<rparr>
       = [CodeMismatch (mkCourse ''CS110'' ''Introduction to Programming'' ''3'') untitledCourse]"
proof -
  let ?e = "mkCourse ''CS110'' ''Introduction to Programming'' ''3''"
  let ?es = "[(''EE200|1|'', \<lparr>count = 1, sample = mkCourse ''EE200'' ''Circuits'' ''1''\<rparr>),
         (''CS110|3|'', \<lparr>count = 1, sample = ?e\<rparr>),
         (''BI100|3|'', \<lparr>count = 1, sample = mkCourse ''BI100'' ''Biology'' ''3''\<rparr>)]"
  have h1: "falsy (title untitledCourse)"
    by (simp add: untitledCourse_def falsy_def)
  have h2: "normalizeCredits (credits untitledCourse) = normalizeCredits (credits ?e)"
    by code_simp
  have h3: "\<not> (True \<and> normalizeCode (code untitledCourse) = normalizeCode (code ?e)
              \<and> normalizePrereq (prerequisite untitledCourse) \<noteq> normalizePrereq (prerequisite ?e))"
    by code_simp
  have n1: "\<not> isTotalCourse untitledCourse" by code_simp
  have n2: "\<not> isTotalCourse ?e" by code_simp
  have n3: "fingerprint True untitledCourse \<noteq> fingerprint True ?e" by code_simp
  have ff: "firstFit untitledCourse ?es 0 {} = Some (1, ?e)" by code_simp
  have s: "sample (snd (''CS110|3|'', \<lparr>count = 1, sample = ?e\<rparr>)) = ?e" by simp
  have j: "(0::nat) \<notin> {}" by simp
  note t = empty_title_pairing [where mCourse = untitledCourse and eCourse = ?e and pa = True
      and i = 0 and j = 0 and ds = "[]" and pairedMissing = "{}" and pairedExtra = "{}"
      and liveName = "''Semester 1''" and referenceName = "''Semester 1''"]
  from t [where es = ?es] h1 have a: "titlesSimilar untitledCourse ?e" by blast
  from t [where es = ?es] h1
  have "innerLoop True untitledCourse 0 ?es 0 ([], {}, {})
          = (case firstFit untitledCourse ?es 0 {} of
               None \<Rightarrow> ([], {}, {})
             | Some (k, fitted) \<Rightarrow>
                 ([] @ [pairedDiff True fitted untitledCourse], insert 0 {}, insert k {}))"
    by blast
  moreover from t [where es = "[]" and e = "(''CS110|3|'', \<lparr>count = 1, sample = ?e\<rparr>)"] h3
  have pd: "pairedDiff True ?e untitledCourse = CodeMismatch ?e untitledCourse"
    using h1 h2 j s by blast
  ultimately have b: "innerLoop True untitledCourse 0 ?es 0 ([], {}, {})
       = ([CodeMismatch ?e untitledCourse], {0}, {1})"
    by (simp only: ff option.case prod.case append_Nil)
  from t [where es = "[]" and e = "(''CS110|3|'', \<lparr>count = 1, sample = ?e\<rparr>)"] h1 h2 j s
  have "innerLoop True untitledCourse 0 [(''CS110|3|'', \<lparr>count = 1, sample = ?e\<rparr>)] 0 ([], {}, {})
          = ([] @ [pairedDiff True ?e untitledCourse], insert 0 {}, insert 0 {})"
    by blast
  then have c: "innerLoop True untitledCourse 0 [(''CS110|3|'', \<lparr>count = 1, sample = ?e\<rparr>)] 0 ([], {}, {})
       = ([CodeMismatch ?e untitledCourse], {0}, {0})"
    by (simp only: pd append_Nil)
  from t [where es = "[]"] h1 h2 h3 n1 n2 n3 have d: "compareSemesters True
         \<lparr>name = ''Semester 1'', courses = Some [?e]\<rparr>
         \<lparr>name = ''Semester 1'', courses = Some [untitledCourse]\<rparr>
       = [CodeMismatch ?e untitledCourse]"
    by blast
  from h1 h2 a ff b c d show ?thesis by (intro conjI)
qed

text \<open>
  C9 as stated pairs any missing candidate and any extra candidate with equal credits
  when one of the titles is empty. A candidate is paired at most once: with two extra
  candidates of the credits of the one untitled reference course, the second stays an
  extra course; and an untitled reference course stays missing when the only extra
  candidate is taken by a reference course before it.
\<close>

theorem empty_title_pairing_counterexample:
  "falsy (title untitledCourse)
   \<and> normalizeCredits (credits untitledCourse)
       = normalizeCredits (credits (mkCourse ''BI100'' ''Biology'' ''3''))
   \<and> normalizeCode (code untitledCourse) \<noteq> normalizeCode (code (mkCourse ''BI100'' ''Biology'' ''3''))
   \<and> compareSemesters True
        \<lparr>name = ''Semester 1'',
         courses = Some [mkCourse ''CS110'' ''Introduction to Programming'' ''3'',
                         mkCourse ''BI100'' ''Biology'' ''3'']\<rparr>
        \<lparr>name = ''Semester 1'', courses = Some [untitledCourse]\<rparr>
       = [CodeMismatch (mkCourse ''CS110'' ''Introduction to Programming'' ''3'') untitledCourse,
          ExtraInFetched 1 (mkCourse ''BI100'' ''Biology'' ''3'')]
   \<and> compareSemesters False
        \<lparr>name = ''Semester 1'',
         courses = Some [mkCourse ''CS110'' ''Introduction to Programming'' ''3'',
                         mkCourse ''BI100'' ''Biology'' ''3'']\<rparr>
        \<lparr>name = ''Semester 1'', courses = Some [untitledCourse]\<rparr>
       = [CodeMismatch (mkCourse ''CS110'' ''Introduction to Programming'' ''3'') untitledCourse,
          ExtraInFetched 1 (mkCourse ''BI100'' ''Biology'' ''3'')]
   \<and> compareSemesters True
        \<lparr>name = ''Semester 1'', courses = Some [mkCourse ''XX100'' ''Algebra'' ''3'']\<rparr>
        \<lparr>name = ''Semester 1'',
         courses = Some [mkCourse ''MA100'' ''Algebra'' ''3'', untitledCourse]\<rparr>
       = [CodeMismatch (mkCourse ''XX100'' ''Algebra'' ''3'') (mkCourse ''MA100'' ''Algebra'' ''3''),
          MissingInFetched 1 untitledCourse]
   \<and> compareSemesters False
        \<lparr>name = ''Semester 1'', courses = Some [mkCourse ''XX100'' ''Algebra'' ''3'']\<rparr>
        \<lparr>name = ''Semester 1'',
         courses = Some [mkCourse ''MA100'' ''Algebra'' ''3'', untitledCourse]\<rparr>
       = [CodeMismatch (mkCourse ''XX100'' ''Algebra'' ''3'') (mkCourse ''MA100'' ''Algebra'' ''3''),
          MissingInFetched 1 untitledCourse]"
  by code_simp

section \<open>Courses without code and title\<close>

lemma trim_empty: "trim s = [] \<longleftrightarrow> (\<forall>c \<in> set s. isSpace c)"
proof -
  have "trim s = [] \<longleftrightarrow> (\<forall>c \<in> set (dropWhile isSpace s). isSpace c)"
    by (simp add: trim_def)
  also have "\<dots> \<longleftrightarrow> dropWhile isSpace s = []"
    by (metis dropWhile_eq_Nil_conv hd_dropWhile list.set_sel(1) empty_iff list.set(1))
  also have "\<dots> \<longleftrightarrow> (\<forall>c \<in> set s. isSpace c)"
    by simp
  finally show ?thesis .
qed

lemma apostrophe_not_space: "\<not> isSpace (CHR 0x27)"
  by (simp add: isSpace_def)

lemma replaceCurlyQuotes_nonspace:
  "\<exists>c \<in> set s. \<not> isSpace c \<Longrightarrow> \<exists>c \<in> set (replaceCurlyQuotes s). \<not> isSpace c"
proof (induction s rule: replaceCurlyQuotes.induct)
  case (1 a b c cs)
  show ?case
  proof (cases "a = CHR 0xE2 \<and> b = CHR 0x80 \<and> c \<in> set [CHR 0x98, CHR 0x99, CHR 0x9C, CHR 0x9D]")
    case True
    then have "replaceCurlyQuotes (a # b # c # cs) = CHR 0x27 # replaceCurlyQuotes cs"
      by simp
    then show ?thesis using apostrophe_not_space by (metis list.set_intros(1))
  next
    case False
    then have eq: "replaceCurlyQuotes (a # b # c # cs) = a # replaceCurlyQuotes (b # c # cs)"
      by auto
    show ?thesis
    proof (cases "isSpace a")
      case True
      with "1.prems" have "\<exists>x \<in> set (b # c # cs). \<not> isSpace x" by (metis set_ConsD)
      from "1.IH"(2) [OF False this] show ?thesis unfolding eq by (metis list.set_intros(2))
    next
      case False
      then show ?thesis unfolding eq by (metis list.set_intros(1))
    qed
  qed
qed simp_all

lemma replaceCurlyQuotes_spaces:
  "(\<forall>c \<in> set (replaceCurlyQuotes s). isSpace c) \<Longrightarrow> (\<forall>c \<in> set s. isSpace c)"
  using replaceCurlyQuotes_nonspace [of s] by blast

lemma replaceRunsFrom_nonspace:
  "\<exists>c \<in> set s. \<not> isSpace c \<Longrightarrow> \<exists>c \<in> set (replaceRunsFrom isSpace rep b s). \<not> isSpace c"
proof (induction s arbitrary: b)
  case Nil
  then show ?case by simp
next
  case (Cons c s)
  show ?case
  proof (cases "isSpace c")
    case True
    with Cons.prems have "\<exists>x \<in> set s. \<not> isSpace x" by (metis set_ConsD)
    from Cons.IH [OF this, of True] obtain x where
      x: "x \<in> set (replaceRunsFrom isSpace rep True s)" "\<not> isSpace x" by blast
    have "x \<in> set (replaceRunsFrom isSpace rep b (c # s))" using True x(1) by simp
    with x(2) show ?thesis by blast
  next
    case False
    then have "c \<in> set (replaceRunsFrom isSpace rep b (c # s))" by simp
    with False show ?thesis by blast
  qed
qed

lemma replaceRunsFrom_spaces:
  "(\<forall>c \<in> set (replaceRunsFrom isSpace rep b s). isSpace c) \<Longrightarrow> (\<forall>c \<in> set s. isSpace c)"
  using replaceRunsFrom_nonspace [of s rep b] by blast

lemma includesStr_set: "includesStr h n \<Longrightarrow> set n \<subseteq> set h"
proof (induction h)
  case Nil
  then show ?case by simp
next
  case (Cons a h)
  from Cons.prems have "prefix n (a # h) \<or> includesStr h n" by simp
  then show ?case
  proof
    assume "prefix n (a # h)"
    then show ?thesis by (rule set_mono_prefix)
  next
    assume "includesStr h n"
    then have "set n \<subseteq> set h" by (rule Cons.IH)
    then show ?thesis by auto
  qed
qed

lemma lowerChar_other: "\<not> isUpper c \<Longrightarrow> lowerChar c = c"
proof -
  assume "\<not> isUpper c"
  then have notin: "c \<notin> set ''ABCDEFGHIJKLMNOPQRSTUVWXYZ''" unfolding isUpper_def .
  have len: "length ''ABCDEFGHIJKLMNOPQRSTUVWXYZ'' = length ''abcdefghijklmnopqrstuvwxyz''"
    by simp
  have "map_of (zip ''ABCDEFGHIJKLMNOPQRSTUVWXYZ'' ''abcdefghijklmnopqrstuvwxyz'') c = None"
    by (rule iffD2 [OF map_of_zip_is_None [OF len] notin])
  then show ?thesis by (simp only: lowerChar_def option.case)
qed

lemma space_not_upper: "isSpace c \<Longrightarrow> \<not> isUpper c"
  by (auto simp: isSpace_def isUpper_def)

lemma lowerChar_space: "isSpace c \<Longrightarrow> lowerChar c = c"
  by (rule lowerChar_other) (rule space_not_upper)

lemma t_not_space: "\<not> isSpace (CHR ''t'')"
  by (simp add: isSpace_def)

lemma spaces_not_total:
  assumes "\<forall>c \<in> set s. isSpace c"
  shows "\<not> includesStr (toLowerCase s) ''total''"
proof
  assume "includesStr (toLowerCase s) ''total''"
  then have "CHR ''t'' \<in> set (toLowerCase s)" using includesStr_set by fastforce
  then obtain c where "c \<in> set s" "lowerChar c = CHR ''t''" by (auto simp: toLowerCase_def)
  with assms lowerChar_space [of c] t_not_space show False by auto
qed

lemma normalizeTitle_empty:
  assumes "normalizeTitle t = []"
  shows "\<not> includesStr (toLowerCase (orEmpty t)) ''total''"
proof (cases "falsy t")
  case True
  then show ?thesis by (auto simp: falsy_def orEmpty_def toLowerCase_def)
next
  case False
  with assms have "trim (replaceCurlyQuotes (replaceRuns isSpace '' '' (orEmpty t))) = []"
    by (simp add: normalizeTitle_def toLowerCase_def)
  then have "\<forall>c \<in> set (replaceCurlyQuotes (replaceRuns isSpace '' '' (orEmpty t))). isSpace c"
    by (simp add: trim_empty)
  then have "\<forall>c \<in> set (replaceRuns isSpace '' '' (orEmpty t)). isSpace c"
    by (rule replaceCurlyQuotes_spaces)
  then have "\<forall>c \<in> set (orEmpty t). isSpace c"
    unfolding replaceRuns_def by (rule replaceRunsFrom_spaces)
  then show ?thesis by (rule spaces_not_total)
qed

text \<open>
  C10. A course whose code normalizes to the empty string and whose title is absent,
  empty or normalizes to the empty string is not a total marker. Its fingerprint is
  built from the credits (and, in the prerequisite-aware tool, the prerequisite) alone,
  and when it stands in a course list, the count map of the list has an entry for this
  fingerprint that counts it.
\<close>

theorem untitled_uncoded_course:
  assumes "normalizeCode (code c) = []"
      and "falsy (title c) \<or> normalizeTitle (title c) = []"
  shows "\<not> isTotalCourse c
    \<and> fingerprint pa c =
         (if pa then ''|'' @ normalizeCredits (credits c) @ ''|'' @ normalizePrereq (prerequisite c)
          else ''|'' @ normalizeCredits (credits c))
    \<and> (c \<in> set arr \<longrightarrow>
         (\<exists>e. map_of (makeCountMap pa arr) (fingerprint pa c) = Some e \<and> 0 < count e
              \<and> count e = count_list (nonTotalFingerprints pa arr) (fingerprint pa c)))"
proof (intro conjI impI)
  from assms(2) have "normalizeTitle (title c) = []"
    by (auto simp: normalizeTitle_def)
  then have "\<not> includesStr (toLowerCase (orEmpty (title c))) ''total''"
    by (rule normalizeTitle_empty)
  then show nt: "\<not> isTotalCourse c"
    using assms(1) by (simp add: isTotalCourse_def Let_def)
  show "fingerprint pa c =
         (if pa then ''|'' @ normalizeCredits (credits c) @ ''|'' @ normalizePrereq (prerequisite c)
          else ''|'' @ normalizeCredits (credits c))"
    using assms(1) by (simp add: fingerprint_def)
  show "\<exists>e. map_of (makeCountMap pa arr) (fingerprint pa c) = Some e \<and> 0 < count e
              \<and> count e = count_list (nonTotalFingerprints pa arr) (fingerprint pa c)"
    if "c \<in> set arr"
  proof -
    from that nt have "fingerprint pa c \<in> set (nonTotalFingerprints pa arr)"
      by (auto simp: nonTotalFingerprints_def)
    then have pos: "count_list (nonTotalFingerprints pa arr) (fingerprint pa c) \<noteq> 0"
      by (simp add: count_list_0_iff)
    from makeCountMap_present [OF refl pos] pos show ?thesis by auto
  qed
qed

theorem untitled_uncoded_course_witness:
  "normalizeCode (code blankCourse) = []
   \<and> normalizeTitle (title blankCourse) = []
   \<and> \<not> isTotalCourse blankCourse
   \<and> fingerprint True blankCourse = ''|Total|''
   \<and> (\<exists>e. map_of (makeCountMap True [blankCourse]) (fingerprint True blankCourse) = Some e
          \<and> 0 < count e
          \<and> count e = count_list (nonTotalFingerprints True [blankCourse]) (fingerprint True blankCourse))"
proof -
  have h1: "normalizeCode (code blankCourse) = []" by code_simp
  have h2: "normalizeTitle (title blankCourse) = []" by code_simp
  have fp: "fingerprint True blankCourse = ''|Total|''" by code_simp
  note t = untitled_uncoded_course [OF h1 disjI2 [OF h2], of True "[blankCourse]"]
  from t have a: "\<not> isTotalCourse blankCourse" by (rule conjunct1)
  have mem: "blankCourse \<in> set [blankCourse]" by simp
  from t mem have b: "\<exists>e. map_of (makeCountMap True [blankCourse]) (fingerprint True blankCourse) = Some e
          \<and> 0 < count e
          \<and> count e = count_list (nonTotalFingerprints True [blankCourse]) (fingerprint True blankCourse)"
    by blast
  from h1 h2 a fp b show ?thesis by (intro conjI)
qed

section \<open>Prerequisite keys\<close>

lemma replaceRunsFrom_no_space:
  "\<forall>c \<in> set rep. \<not> isSpace c \<Longrightarrow> \<forall>c \<in> set (replaceRunsFrom isSpace rep b s). \<not> isSpace c"
  by (induction s arbitrary: b) (auto simp: ball_Un)

lemma hyphen_not_space: "\<forall>c \<in> set ''-''. \<not> isSpace c"
  by (simp add: isSpace_def)

lemma hyphenated_no_space: "\<forall>c \<in> set (replaceRuns isSpace ''-'' s). \<not> isSpace c"
  unfolding replaceRuns_def using hyphen_not_space by (rule replaceRunsFrom_no_space)

text \<open>
  C5 (as amended). For every prerequisite text, \<open>normalizePrereq\<close> joins with a pipe a
  sorted list that holds, with their multiplicities, the course codes found in the
  trimmed, upper-cased text, each with its white space replaced by a hyphen: a code that
  occurs twice is there twice. No code of the result has white space, and the result is
  empty when no code is found.
\<close>

theorem normalizePrereq_sorted_codes:
  "\<exists>codes. normalizePrereq p = join ''|'' codes
     \<and> sorted codes
     \<and> mset codes = mset (map (replaceRuns isSpace ''-'')
                            (matchAll codePattern (toUpperCase (trim (orEmpty p)))))
     \<and> (\<forall>c \<in> set codes. \<forall>ch \<in> set c. \<not> isSpace ch)
     \<and> (matchAll codePattern (toUpperCase (trim (orEmpty p))) = [] \<longrightarrow> normalizePrereq p = [])"
proof -
  let ?found = "map (replaceRuns isSpace ''-'') (matchAll codePattern (toUpperCase (trim (orEmpty p))))"
  have empty: "matchAll codePattern (toUpperCase (trim (orEmpty p))) = []" if "falsy p"
    using that by (auto simp: falsy_def orEmpty_def trim_def toUpperCase_def matchAll_def)
  have eq: "normalizePrereq p = join ''|'' (sort ?found)"
    by (cases "falsy p") (simp_all add: normalizePrereq_def Let_def empty)
  have "\<forall>c \<in> set (sort ?found). \<forall>ch \<in> set c. \<not> isSpace ch"
    using hyphenated_no_space by auto
  moreover have "matchAll codePattern (toUpperCase (trim (orEmpty p))) = [] \<longrightarrow> normalizePrereq p = []"
    by (simp add: eq)
  ultimately show ?thesis using eq by (intro exI [of _ "sort ?found"]) simp
qed

theorem normalizePrereq_sorted_codes_witness:
  "normalizePrereq (Some ''cs 101 and MATH-20, CS101 or cs101'') = ''CS-101|CS101|CS101|MATH-20''
   \<and> (\<exists>codes. normalizePrereq (Some ''cs 101 and MATH-20, CS101 or cs101'') = join ''|'' codes
     \<and> sorted codes
     \<and> mset codes = mset (map (replaceRuns isSpace ''-'')
          (matchAll codePattern (toUpperCase (trim (orEmpty (Some ''cs 101 and MATH-20, CS101 or cs101''))))))
     \<and> (\<forall>c \<in> set codes. \<forall>ch \<in> set c. \<not> isSpace ch)
     \<and> (matchAll codePattern (toUpperCase (trim (orEmpty (Some ''cs 101 and MATH-20, CS101 or cs101'')))) = []
          \<longrightarrow> normalizePrereq (Some ''cs 101 and MATH-20, CS101 or cs101'') = []))"
proof
  show "normalizePrereq (Some ''cs 101 and MATH-20, CS101 or cs101'') = ''CS-101|CS101|CS101|MATH-20''"
    by code_simp
qed (rule normalizePrereq_sorted_codes)

text \<open>
  C5 as stated has the codes as a set, each code once. On a text that names a code
  twice the result of \<open>normalizePrereq\<close> has it twice.
\<close>

theorem normalizePrereq_duplicates_counterexample:
  "normalizePrereq (Some ''CS101, CS101'') = ''CS101|CS101''
   \<and> normalizePrereqAsSpecified (Some ''CS101, CS101'') = ''CS101''"
  by code_simp

section \<open>Positional mapping of table rows\<close>

lemma trim_id: "\<forall>c \<in> set s. \<not> isSpace c \<Longrightarrow> trim s = s"
proof -
  assume a: "\<forall>c \<in> set s. \<not> isSpace c"
  then have 1: "dropWhile isSpace s = s" by (cases s) simp_all
  from a have "\<forall>c \<in> set (rev s). \<not> isSpace c" by simp
  then have 2: "dropWhile isSpace (rev s) = rev s" by (cases "rev s") simp_all
  show ?thesis by (simp add: trim_def 1 2)
qed

lemma digit_not_space: "isDigit c \<Longrightarrow> \<not> isSpace c"
  by (auto simp: isDigit_def isSpace_def)

lemma allDigits_trim: "allDigits s \<Longrightarrow> trim s = s"
  by (rule trim_id) (auto simp: allDigits_def list_all_iff digit_not_space)

lemma orNull_Some: "s \<noteq> [] \<Longrightarrow> orNull s = Some s"
  by (simp add: orNull_def)

text \<open>
  C6 (as amended). When at least three cells remain after the serial offset,
  \<open>parseCourseFromCells\<close> takes the code, the title and the credits from the cells at the
  offset, the offset plus one and the offset plus two, and the prerequisite from the
  cell at the offset plus four when there is one: each field is the cell with the
  white space at its ends removed, and null when nothing is left; the credits stay a
  string. For cells that are trimmed and not empty the fields are the cells
  themselves.
\<close>

theorem positional_mapping:
  assumes "serialOffset cells + 3 \<le> length cells"
  shows "parsedCourse.serial (parseCourseFromCells cells)
           = (if serialOffset cells = 1 then Some (cells ! 0) else None)
    \<and> parsedCourse.code (parseCourseFromCells cells) = orNull (trim (cells ! serialOffset cells))
    \<and> parsedCourse.title (parseCourseFromCells cells)
           = orNull (trim (cells ! (serialOffset cells + 1)))
    \<and> parsedCourse.credits (parseCourseFromCells cells)
           = map_option CreditString (orNull (trim (cells ! (serialOffset cells + 2))))
    \<and> parsedCourse.prerequisite (parseCourseFromCells cells)
           = (if serialOffset cells + 4 < length cells
              then orNull (trim (cells ! (serialOffset cells + 4))) else None)
    \<and> ((\<forall>c \<in> set cells. c \<noteq> [] \<and> trim c = c) \<longrightarrow>
         parsedCourse.code (parseCourseFromCells cells) = Some (cells ! serialOffset cells)
       \<and> parsedCourse.title (parseCourseFromCells cells) = Some (cells ! (serialOffset cells + 1))
       \<and> parsedCourse.credits (parseCourseFromCells cells)
           = Some (CreditString (cells ! (serialOffset cells + 2)))
       \<and> parsedCourse.prerequisite (parseCourseFromCells cells)
           = (if serialOffset cells + 4 < length cells
              then Some (cells ! (serialOffset cells + 4)) else None))"
proof -
  obtain c cs where cells: "cells = c # cs" using assms by (cases cells) auto
  have ser: "parsedCourse.serial (parseCourseFromCells cells)
           = (if serialOffset cells = 1 then Some (cells ! 0) else None)"
    using assms by (auto simp: parseCourseFromCells_def serialOffset_def Let_def cells allDigits_trim)
  have cod: "parsedCourse.code (parseCourseFromCells cells) = orNull (trim (cells ! serialOffset cells))"
    using assms by (auto simp: parseCourseFromCells_def serialOffset_def Let_def cells)
  have tit: "parsedCourse.title (parseCourseFromCells cells)
           = orNull (trim (cells ! (serialOffset cells + 1)))"
    using assms by (auto simp: parseCourseFromCells_def serialOffset_def Let_def cells)
  have cre: "parsedCourse.credits (parseCourseFromCells cells)
           = map_option CreditString (orNull (trim (cells ! (serialOffset cells + 2))))"
    using assms by (auto simp: parseCourseFromCells_def serialOffset_def Let_def cells)
  have pre: "parsedCourse.prerequisite (parseCourseFromCells cells)
           = (if serialOffset cells + 4 < length cells
              then orNull (trim (cells ! (serialOffset cells + 4))) else None)"
    using assms by (auto simp: parseCourseFromCells_def serialOffset_def Let_def cells)
  have verb: "orNull (trim (cells ! i)) = Some (cells ! i)"
    if "\<forall>c \<in> set cells. c \<noteq> [] \<and> trim c = c" and "i < length cells" for i
    using that by (simp add: orNull_def)
  have "parsedCourse.code (parseCourseFromCells cells) = Some (cells ! serialOffset cells)
       \<and> parsedCourse.title (parseCourseFromCells cells) = Some (cells ! (serialOffset cells + 1))
       \<and> parsedCourse.credits (parseCourseFromCells cells)
           = Some (CreditString (cells ! (serialOffset cells + 2)))
       \<and> parsedCourse.prerequisite (parseCourseFromCells cells)
           = (if serialOffset cells + 4 < length cells
              then Some (cells ! (serialOffset cells + 4)) else None)"
    if all: "\<forall>c \<in> set cells. c \<noteq> [] \<and> trim c = c"
    unfolding cod tit cre pre using assms by (simp add: verb [OF all])
  with ser cod tit cre pre show ?thesis by blast
qed

theorem positional_mapping_witness:
  "serialOffset exampleRow + 3 \<le> length exampleRow
   \<and> parsedCourse.serial (parseCourseFromCells exampleRow) = Some ''1''
   \<and> parsedCourse.code (parseCourseFromCells exampleRow) = Some ''CS101''
   \<and> parsedCourse.title (parseCourseFromCells exampleRow) = Some ''Programming Fundamentals''
   \<and> parsedCourse.credits (parseCourseFromCells exampleRow) = Some (CreditString ''3+1'')
   \<and> parsedCourse.prerequisite (parseCourseFromCells exampleRow) = Some ''CS100''"
proof -
  have h: "serialOffset exampleRow + 3 \<le> length exampleRow" by code_simp
  have t: "\<forall>c \<in> set exampleRow. c \<noteq> [] \<and> trim c = c" by code_simp
  have off: "serialOffset exampleRow = 1" by code_simp
  from positional_mapping [OF h] t
  have "parsedCourse.serial (parseCourseFromCells exampleRow)
           = (if serialOffset exampleRow = 1 then Some (exampleRow ! 0) else None)
       \<and> parsedCourse.code (parseCourseFromCells exampleRow) = Some (exampleRow ! serialOffset exampleRow)
       \<and> parsedCourse.title (parseCourseFromCells exampleRow) = Some (exampleRow ! (serialOffset exampleRow + 1))
       \<and> parsedCourse.credits (parseCourseFromCells exampleRow)
           = Some (CreditString (exampleRow ! (serialOffset exampleRow + 2)))
       \<and> parsedCourse.prerequisite (parseCourseFromCells exampleRow)
           = (if serialOffset exampleRow + 4 < length exampleRow
              then Some (exampleRow ! (serialOffset exampleRow + 4)) else None)"
    by blast
  then have "parsedCourse.serial (parseCourseFromCells exampleRow) = Some ''1''
   \<and> parsedCourse.code (parseCourseFromCells exampleRow) = Some ''CS101''
   \<and> parsedCourse.title (parseCourseFromCells exampleRow) = Some ''Programming Fundamentals''
   \<and> parsedCourse.credits (parseCourseFromCells exampleRow) = Some (CreditString ''3+1'')
   \<and> parsedCourse.prerequisite (parseCourseFromCells exampleRow) = Some ''CS100''"
    unfolding off by (simp add: exampleRow_def)
  with h show ?thesis by (rule conjI)
qed

text \<open>
  C6 as stated makes each field the cell itself. An empty title cell gives a null
  title, and a code cell with a leading space gives the code without it.
\<close>

theorem positional_mapping_counterexample:
  "serialOffset [''CS101'', [], ''3+1''] + 3 \<le> length [''CS101'', [], ''3+1'']
   \<and> [''CS101'', [], ''3+1''] ! (serialOffset [''CS101'', [], ''3+1''] + 1) = []
   \<and> parsedCourse.title (parseCourseFromCells [''CS101'', [], ''3+1'']) = None
   \<and> parsedCourse.code (parseCourseFromCells ['' CS101'', ''Programming'', ''3'']) = Some ''CS101''"
  by code_simp

section \<open>The report\<close>

lemma diffType_vocabulary: "diffType d \<in> reportTypes"
  by (cases d) (simp_all add: reportTypes_def)

subsection \<open>The type of a paired entry\<close>

lemma innerLoop_plain:
  "\<forall>d \<in> set ds. noPrerequisiteMismatch d \<Longrightarrow>
   \<forall>d \<in> set (fst (innerLoop False m i es j (ds, pm, pe))). noPrerequisiteMismatch d"
  by (induction es arbitrary: j) (simp_all add: Let_def noPrerequisiteMismatch_def)

lemma outerLoop_plain:
  "\<forall>d \<in> set ds. noPrerequisiteMismatch d \<Longrightarrow>
   \<forall>d \<in> set (fst (outerLoop False ms i es (ds, pm, pe))). noPrerequisiteMismatch d"
proof (induction ms arbitrary: i ds pm pe)
  case Nil
  then show ?case by simp
next
  case (Cons m ms)
  obtain ds' pm' pe' where il: "innerLoop False (sample (snd m)) i es 0 (ds, pm, pe) = (ds', pm', pe')"
    by (cases "innerLoop False (sample (snd m)) i es 0 (ds, pm, pe)")
  from innerLoop_plain [OF Cons.prems, of "sample (snd m)" i es 0 pm pe]
  have "\<forall>d \<in> set ds'. noPrerequisiteMismatch d" by (simp add: il)
  then have "\<forall>d \<in> set (fst (outerLoop False ms (Suc i) es (ds', pm', pe'))). noPrerequisiteMismatch d"
    by (rule Cons.IH)
  then show ?case by (simp add: il)
qed

lemma remainingMissing_plain:
  "\<forall>d \<in> set ds. noPrerequisiteMismatch d \<Longrightarrow>
   \<forall>d \<in> set (remainingMissing ms i pm ds). noPrerequisiteMismatch d"
proof (induction ms arbitrary: i ds)
  case Nil
  then show ?case by simp
next
  case (Cons m ms)
  have "\<forall>d \<in> set (ds @ [MissingInFetched (count (snd m)) (sample (snd m))]). noPrerequisiteMismatch d"
    using Cons.prems by (simp add: noPrerequisiteMismatch_def)
  from Cons.IH [OF this] Cons.IH [OF Cons.prems] show ?case by simp
qed

lemma remainingExtra_plain:
  "\<forall>d \<in> set ds. noPrerequisiteMismatch d \<Longrightarrow>
   \<forall>d \<in> set (remainingExtra es j pe ds). noPrerequisiteMismatch d"
proof (induction es arbitrary: j ds)
  case Nil
  then show ?case by simp
next
  case (Cons e es)
  have "\<forall>d \<in> set (ds @ [ExtraInFetched (count (snd e)) (sample (snd e))]). noPrerequisiteMismatch d"
    using Cons.prems by (simp add: noPrerequisiteMismatch_def)
  from Cons.IH [OF this] Cons.IH [OF Cons.prems] show ?case by simp
qed

lemma compareSemesters_plain:
  "\<forall>d \<in> set (compareSemesters False f v). noPrerequisiteMismatch d"
proof -
  let ?fMap = "makeCountMap False (coursesOf f)"
  let ?vMap = "makeCountMap False (coursesOf v)"
  let ?st = "outerLoop False (missingOf ?fMap ?vMap) 0 (missingOf ?vMap ?fMap) ([], {}, {})"
  have a: "\<forall>d \<in> set (fst ?st). noPrerequisiteMismatch d"
    by (rule outerLoop_plain) simp
  have b: "\<forall>d \<in> set (remainingMissing (missingOf ?fMap ?vMap) 0 (fst (snd ?st)) []).
             noPrerequisiteMismatch d"
    by (rule remainingMissing_plain) simp
  have c: "\<forall>d \<in> set (remainingExtra (missingOf ?vMap ?fMap) 0 (snd (snd ?st)) []).
             noPrerequisiteMismatch d"
    by (rule remainingExtra_plain) simp
  have d: "\<forall>d \<in> set (map (\<lambda>(c, fetchedCount, validCount). CountMismatch c fetchedCount validCount)
             (mismatchOf ?fMap ?vMap)). noPrerequisiteMismatch d"
    by (auto simp: noPrerequisiteMismatch_def)
  from a b c d show ?thesis
    unfolding compareSemesters_decomp Let_def by (simp only: set_append ball_Un)
qed

subsection \<open>The map of the reference terms\<close>

lemma sheetMapLoop_keys:
  "\<forall>ks \<in> set m. name (snd ks) = fst ks \<and> fst ks \<noteq> [] \<Longrightarrow>
   \<forall>ks \<in> set (sheetMapLoop sems m). name (snd ks) = fst ks \<and> fst ks \<noteq> []"
proof (induction sems arbitrary: m)
  case Nil
  then show ?case by simp
next
  case (Cons sem sems)
  define key where "key = (if name sem = [] then ''(unknown)'' else name sem)"
  define m1 where "m1 = (if map_of m key = None
                         then AList.update key \<lparr>name = key, courses = Some []\<rparr> m else m)"
  define m2 where "m2 = (case map_of m1 key of
              None \<Rightarrow> m1
            | Some e \<Rightarrow> AList.update key (e\<lparr>courses := Some (coursesOf e @ coursesOf sem)\<rparr>) m1)"
  have key: "key \<noteq> []" by (simp add: key_def)
  have inv1: "\<forall>ks \<in> set m1. name (snd ks) = fst ks \<and> fst ks \<noteq> []"
    using Cons.prems key set_update_subset [of key "\<lparr>name = key, courses = Some []\<rparr>" m]
    by (auto simp: m1_def)
  have inv2: "\<forall>ks \<in> set m2. name (snd ks) = fst ks \<and> fst ks \<noteq> []"
  proof (cases "map_of m1 key")
    case None
    then show ?thesis using inv1 by (simp add: m2_def)
  next
    case (Some e)
    then have "(key, e) \<in> set m1" by (rule map_of_SomeD)
    with inv1 have "name e = key" by force
    then show ?thesis
      using inv1 key Some
        set_update_subset [of key "e\<lparr>courses := Some (coursesOf e @ coursesOf sem)\<rparr>" m1]
      by (auto simp: m2_def)
  qed
  have "sheetMapLoop (sem # sems) m = sheetMapLoop sems m2"
    unfolding key_def m1_def m2_def by (simp only: sheetMapLoop.simps Let_def)
  with Cons.IH [OF inv2] show ?case by simp
qed

lemma buildSheetSemesterMap_keys:
  "(k, sem) \<in> set (buildSheetSemesterMap sheetSemesters) \<Longrightarrow> name sem = k \<and> k \<noteq> []"
  using sheetMapLoop_keys [of "[]" sheetSemesters] by (force simp: buildSheetSemesterMap_def)

lemma matchKey_key: "matchKey sheetMap n = Some k \<Longrightarrow> k \<in> fst ` set sheetMap"
proof -
  assume a: "matchKey sheetMap n = Some k"
  have f: "find P (map fst sheetMap) = Some k \<Longrightarrow> k \<in> fst ` set sheetMap" for P
    by (auto simp: find_Some_iff)
  show ?thesis
  proof (cases "map_of sheetMap n = None")
    case False
    with a have "k = n" by (simp add: matchKey_def Let_def)
    with False show ?thesis by (simp add: map_of_eq_None_iff)
  next
    case True
    with a show ?thesis
      by (auto simp: matchKey_def Let_def dest: f split: if_splits option.splits)
  qed
qed

subsection \<open>The two loops of the report\<close>

lemma scrapedLoop_step:
  assumes "\<forall>ks \<in> set sheetMap. name (snd ks) = fst ks \<and> fst ks \<noteq> []"
  shows "scrapedLoop pa sheetMap (s # rest) (report, matched)
           = scrapedLoop pa sheetMap rest
               (report @ [liveEntry pa sheetMap s],
                matched \<union> {k. matchKey sheetMap (name s) = Some k})"
proof (cases "matchKey sheetMap (name s)")
  case None
  then show ?thesis
    by (simp add: Let_def falsy_def liveEntry_def validSemOf_def)
next
  case (Some k)
  then have "k \<in> fst ` set sheetMap" by (rule matchKey_key)
  then obtain sem where mem: "(k, sem) \<in> set sheetMap" by auto
  with assms have k: "k \<noteq> []" by force
  from mem obtain sem' where look: "map_of sheetMap k = Some sem'"
    by (cases "map_of sheetMap k") (force simp: map_of_eq_None_iff)+
  then have "(k, sem') \<in> set sheetMap" by (rule map_of_SomeD)
  with assms have n: "name sem' = k" by force
  have set: "{k'. Some k = Some k'} = {k}" by auto
  show ?thesis
    by (simp add: Some Let_def falsy_def orEmpty_def k look n liveEntry_def validSemOf_def set)
qed

lemma scrapedLoop_eq:
  assumes "\<forall>ks \<in> set sheetMap. name (snd ks) = fst ks \<and> fst ks \<noteq> []"
  shows "scrapedLoop pa sheetMap sems (report, matched)
           = (report @ map (liveEntry pa sheetMap) sems,
              matched \<union> {k. \<exists>s \<in> set sems. matchKey sheetMap (name s) = Some k})"
proof (induction sems arbitrary: report matched)
  case Nil
  show ?case by simp
next
  case (Cons s rest)
  have "matched \<union> {k. matchKey sheetMap (name s) = Some k}
          \<union> {k. \<exists>s \<in> set rest. matchKey sheetMap (name s) = Some k}
        = matched \<union> {k. \<exists>s \<in> set (s # rest). matchKey sheetMap (name s) = Some k}"
    by auto
  then show ?case
    unfolding scrapedLoop_step [OF assms] Cons.IH by simp
qed

lemma sheetLoop_eq:
  "sheetLoop pa sheetMap matched report
     = report @ map (extraEntry pa)
         (filter (\<lambda>ks. fst ks \<notin> matched
                       \<and> compareSemesters pa \<lparr>name = fst ks, courses = Some []\<rparr> (snd ks) \<noteq> [])
                 sheetMap)"
proof (induction sheetMap arbitrary: report)
  case Nil
  show ?case by simp
next
  case (Cons x rest)
  obtain key sheetSem where x: "x = (key, sheetSem)" by (cases x)
  show ?case
    unfolding x by (simp add: Let_def Cons.IH extraEntry_def)
qed

lemma liveEntry_wellFormed: "wellFormedEntry (liveEntry pa sheetMap s)"
  by (simp add: liveEntry_def Let_def wellFormedEntry_def diffType_vocabulary)

lemma extraEntry_wellFormed: "wellFormedEntry (extraEntry pa ks)"
  by (simp add: extraEntry_def Let_def wellFormedEntry_def diffType_vocabulary)

lemma liveEntry_plain: "\<forall>d \<in> set (diffs (liveEntry False sheetMap s)). noPrerequisiteMismatch d"
  using compareSemesters_plain by (simp add: liveEntry_def Let_def)

lemma extraEntry_plain: "\<forall>d \<in> set (diffs (extraEntry False ks)). noPrerequisiteMismatch d"
  using compareSemesters_plain by (simp add: extraEntry_def Let_def)

lemma buildReport_eq:
  "buildReport pa scrapedSems sheetSemesters
     = map (liveEntry pa (buildSheetSemesterMap sheetSemesters)) scrapedSems
       @ map (extraEntry pa)
           (filter (unmatched pa (buildSheetSemesterMap sheetSemesters) scrapedSems)
                   (buildSheetSemesterMap sheetSemesters))"
proof -
  let ?m = "buildSheetSemesterMap sheetSemesters"
  have inv: "\<forall>ks \<in> set ?m. name (snd ks) = fst ks \<and> fst ks \<noteq> []"
    using buildSheetSemesterMap_keys by force
  have u: "(\<lambda>ks. fst ks \<notin> {} \<union> {k. \<exists>s \<in> set scrapedSems. matchKey ?m (name s) = Some k}
                \<and> compareSemesters pa \<lparr>name = fst ks, courses = Some []\<rparr> (snd ks) \<noteq> [])
           = unmatched pa ?m scrapedSems"
    by (auto simp: unmatched_def fun_eq_iff)
  show ?thesis
    unfolding buildReport_def Let_def scrapedLoop_eq [OF inv] prod.case sheetLoop_eq u by simp
qed

text \<open>
  C8 (as amended). The report has one entry for every live term, in the order of the
  live catalog: its name is the name of the live term, its key is the key of the
  reference term the matcher chose (which is the name of that term), or the name of the
  live term itself when no reference term matched, and its diffs are the comparison of
  the two. Then follows one entry for every reference term that no live term matched
  and that has at least one diff entry, in the order of the reference map: its name is
  the key with \<open>(extra in valid)\<close> before it. In every entry the diff count is the length
  of the diff list, and the type of every diff entry is one of \<open>missing-in-fetched\<close>,
  \<open>extra-in-fetched\<close>, \<open>count-mismatch\<close>, \<open>code-mismatch\<close> and \<open>prerequisite-mismatch\<close>;
  the tool that is not prerequisite-aware never writes the last one.
\<close>

theorem report_vocabulary:
  "buildReport pa scrapedSems sheetSemesters
     = map (liveEntry pa (buildSheetSemesterMap sheetSemesters)) scrapedSems
       @ map (extraEntry pa)
           (filter (unmatched pa (buildSheetSemesterMap sheetSemesters) scrapedSems)
                   (buildSheetSemesterMap sheetSemesters))
   \<and> (\<forall>e \<in> set (buildReport pa scrapedSems sheetSemesters).
        diffCount e = length (diffs e)
        \<and> (\<forall>d \<in> set (diffs e). diffType d \<in> reportTypes
              \<and> (\<not> pa \<longrightarrow> diffType d \<noteq> ''prerequisite-mismatch'')))
   \<and> (\<forall>s \<in> set scrapedSems. \<forall>k.
        matchKey (buildSheetSemesterMap sheetSemesters) (name s) = Some k \<longrightarrow>
        (\<exists>sem. map_of (buildSheetSemesterMap sheetSemesters) k = Some sem \<and> name sem = k
           \<and> validSemOf (buildSheetSemesterMap sheetSemesters) s = sem))"
proof (intro conjI ballI allI impI)
  let ?m = "buildSheetSemesterMap sheetSemesters"
  show eq: "buildReport pa scrapedSems sheetSemesters
     = map (liveEntry pa ?m) scrapedSems
       @ map (extraEntry pa) (filter (unmatched pa ?m scrapedSems) ?m)"
    by (rule buildReport_eq)
  fix e
  assume "e \<in> set (buildReport pa scrapedSems sheetSemesters)"
  then have e: "(\<exists>s. e = liveEntry pa ?m s) \<or> (\<exists>ks. e = extraEntry pa ks)"
    unfolding eq by auto
  then have w: "wellFormedEntry e"
    using liveEntry_wellFormed extraEntry_wellFormed by blast
  then show "diffCount e = length (diffs e)" by (simp add: wellFormedEntry_def)
  fix d
  assume d: "d \<in> set (diffs e)"
  with w show "diffType d \<in> reportTypes" by (simp add: wellFormedEntry_def)
  assume "\<not> pa"
  then have pa: "pa = False" by simp
  from e d have "noPrerequisiteMismatch d"
    unfolding pa using liveEntry_plain extraEntry_plain by blast
  then show "diffType d \<noteq> ''prerequisite-mismatch''" by (simp add: noPrerequisiteMismatch_def)
next
  let ?m = "buildSheetSemesterMap sheetSemesters"
  fix s k
  assume "s \<in> set scrapedSems" and mk: "matchKey ?m (name s) = Some k"
  from mk have "k \<in> fst ` set ?m" by (rule matchKey_key)
  then obtain sem where look: "map_of ?m k = Some sem"
    by (cases "map_of ?m k") (force simp: map_of_eq_None_iff)+
  then have "(k, sem) \<in> set ?m" by (rule map_of_SomeD)
  then have "name sem = k" using buildSheetSemesterMap_keys by blast
  with look mk show "\<exists>sem. map_of ?m k = Some sem \<and> name sem = k \<and> validSemOf ?m s = sem"
    by (simp add: validSemOf_def)
qed

theorem report_vocabulary_witness:
  "buildReport False [liveTerm] [referenceTerm, otherTerm]
     = [\<lparr>reportEntry.name = ''Semester 1'', validKey = ''Semester 1'', diffCount = 4,
          diffs = [CodeMismatch (mkCourse ''CS110'' ''Introduction to Programming'' ''3'')
                                (mkCourse ''CS101'' ''Intro to Programming'' ''3''),
                   MissingInFetched 1 (mkCourse ''MT100'' ''Calculus'' ''4''),
                   ExtraInFetched 1 (mkCourse ''EE200'' ''Circuits'' ''1''),
                   CountMismatch (mkCourse ''HU107'' ''Pakistan Studies'' ''2'') 1 2]\<rparr>,
        \<lparr>reportEntry.name = ''(extra in valid) Semester 2'', validKey = ''Semester 2'', diffCount = 1,
          diffs = [MissingInFetched 1 (mkCourse ''MT200'' ''Linear Algebra'' ''3'')]\<rparr>]
   \<and> buildReport False [liveTerm] [referenceTerm, otherTerm]
       = map (liveEntry False (buildSheetSemesterMap [referenceTerm, otherTerm])) [liveTerm]
         @ map (extraEntry False)
             (filter (unmatched False (buildSheetSemesterMap [referenceTerm, otherTerm]) [liveTerm])
                     (buildSheetSemesterMap [referenceTerm, otherTerm]))
   \<and> diffCount (hd (buildReport False [liveTerm] [referenceTerm, otherTerm]))
       = length (diffs (hd (buildReport False [liveTerm] [referenceTerm, otherTerm])))
   \<and> diffType (MissingInFetched 1 (mkCourse ''MT100'' ''Calculus'' ''4'')) \<in> reportTypes
   \<and> diffType (MissingInFetched 1 (mkCourse ''MT100'' ''Calculus'' ''4'')) \<noteq> ''prerequisite-mismatch''
   \<and> matchKey (buildSheetSemesterMap [referenceTerm, otherTerm]) (name liveTerm) = Some ''Semester 1''
   \<and> (\<exists>sem. map_of (buildSheetSemesterMap [referenceTerm, otherTerm]) ''Semester 1'' = Some sem
          \<and> name sem = ''Semester 1''
          \<and> validSemOf (buildSheetSemesterMap [referenceTerm, otherTerm]) liveTerm = sem)"
proof -
  let ?e = "\<lparr>reportEntry.name = ''Semester 1'', validKey = ''Semester 1'', diffCount = 4,
          diffs = [CodeMismatch (mkCourse ''CS110'' ''Introduction to Programming'' ''3'')
                                (mkCourse ''CS101'' ''Intro to Programming'' ''3''),
                   MissingInFetched 1 (mkCourse ''MT100'' ''Calculus'' ''4''),
                   ExtraInFetched 1 (mkCourse ''EE200'' ''Circuits'' ''1''),
                   CountMismatch (mkCourse ''HU107'' ''Pakistan Studies'' ''2'') 1 2]\<rparr>"
  let ?x = "\<lparr>reportEntry.name = ''(extra in valid) Semester 2'', validKey = ''Semester 2'', diffCount = 1,
          diffs = [MissingInFetched 1 (mkCourse ''MT200'' ''Linear Algebra'' ''3'')]\<rparr>"
  let ?m = "buildSheetSemesterMap [referenceTerm, otherTerm]"
  note t = report_vocabulary [of False "[liveTerm]" "[referenceTerm, otherTerm]"]
  have r: "buildReport False [liveTerm] [referenceTerm, otherTerm] = [?e, ?x]" by code_simp
  from t have q: "buildReport False [liveTerm] [referenceTerm, otherTerm]
       = map (liveEntry False ?m) [liveTerm]
         @ map (extraEntry False) (filter (unmatched False ?m [liveTerm]) ?m)"
    by (rule conjunct1)
  have mem: "?e \<in> set (buildReport False [liveTerm] [referenceTerm, otherTerm])"
    by (simp only: r list.set_intros)
  have np: "\<not> False" by simp
  from t have "\<forall>e \<in> set (buildReport False [liveTerm] [referenceTerm, otherTerm]).
        diffCount e = length (diffs e)
        \<and> (\<forall>d \<in> set (diffs e). diffType d \<in> reportTypes
              \<and> (\<not> False \<longrightarrow> diffType d \<noteq> ''prerequisite-mismatch''))"
    by (rule conjunct2 [THEN conjunct1])
  from this mem have e: "diffCount ?e = length (diffs ?e)
        \<and> (\<forall>d \<in> set (diffs ?e). diffType d \<in> reportTypes
              \<and> (\<not> False \<longrightarrow> diffType d \<noteq> ''prerequisite-mismatch''))"
    by (rule bspec)
  then have a: "diffCount (hd (buildReport False [liveTerm] [referenceTerm, otherTerm]))
       = length (diffs (hd (buildReport False [liveTerm] [referenceTerm, otherTerm])))"
    by (simp only: r list.sel)
  from e np have b: "diffType (MissingInFetched 1 (mkCourse ''MT100'' ''Calculus'' ''4'')) \<in> reportTypes"
    and c: "diffType (MissingInFetched 1 (mkCourse ''MT100'' ''Calculus'' ''4'')) \<noteq> ''prerequisite-mismatch''"
    by simp_all
  have mk: "matchKey ?m (name liveTerm) = Some ''Semester 1''" by code_simp
  have lm: "liveTerm \<in> set [liveTerm]" by simp
  from t have "\<forall>s \<in> set [liveTerm]. \<forall>k. matchKey ?m (name s) = Some k \<longrightarrow>
        (\<exists>sem. map_of ?m k = Some sem \<and> name sem = k \<and> validSemOf ?m s = sem)"
    by (rule conjunct2 [THEN conjunct2])
  with lm mk have d: "\<exists>sem. map_of ?m ''Semester 1'' = Some sem \<and> name sem = ''Semester 1''
          \<and> validSemOf ?m liveTerm = sem"
    by blast
  from r q a b c mk d show ?thesis by (intro conjI)
qed

text \<open>
  C8 as stated has the types \<open>missing\<close> and \<open>extra\<close>. A reference course that the live
  term lacks is reported with the type \<open>missing-in-fetched\<close>.
\<close>

theorem report_vocabulary_counterexample:
  "buildReport True [\<lparr>name = ''Semester 1'', courses = Some []\<rparr>]
                    [\<lparr>name = ''Semester 1'', courses = Some [mkCourse ''MT100'' ''Calculus'' ''4'']\<rparr>]
     = [\<lparr>reportEntry.name = ''Semester 1'', validKey = ''Semester 1'', diffCount = 1,
          diffs = [MissingInFetched 1 (mkCourse ''MT100'' ''Calculus'' ''4'')]\<rparr>]
   \<and> diffType (MissingInFetched 1 (mkCourse ''MT100'' ''Calculus'' ''4'')) \<notin> specifiedTypes"
  by code_simp

section \<open>Matching term names\<close>

subsection \<open>Characters\<close>

lemma upper_lower: "isUpper c \<Longrightarrow> isLower (lowerChar c)"
  unfolding isUpper_def by (auto simp: lowerChar_def isLower_def)

lemma lower_not_upper: "isLower c \<Longrightarrow> \<not> isUpper c"
  by (auto simp: isLower_def isUpper_def)

lemma wordChar_lower: "isWordChar c \<Longrightarrow> isWordChar (lowerChar c) \<and> \<not> isUpper (lowerChar c)"
proof (cases "isUpper c")
  case True
  then have "isLower (lowerChar c)" by (rule upper_lower)
  then show ?thesis by (simp add: isWordChar_def lower_not_upper)
next
  case False
  assume "isWordChar c"
  with False show ?thesis by (simp add: lowerChar_other)
qed

lemma space_not_word: "isSpace c \<Longrightarrow> \<not> isWordChar c"
  by (auto simp: isSpace_def isWordChar_def isUpper_def isLower_def isDigit_def)

lemma wordChar_ascii: "isWordChar c \<Longrightarrow> isAscii c"
  by (auto simp: isAscii_def isWordChar_def isUpper_def isLower_def isDigit_def)

lemma wordChar_plain:
  "isWordChar c \<Longrightarrow> c \<noteq> CHR ''-'' \<and> c \<noteq> CHR 0xE2 \<and> c \<notin> set ''(),.:'' \<and> \<not> isSpace c"
  by (auto simp: isSpace_def isWordChar_def isUpper_def isLower_def isDigit_def)

subsection \<open>Lower case\<close>

lemma mark_not_upper: "isMark m \<Longrightarrow> \<forall>c \<in> set m. \<not> isUpper c"
proof -
  assume "isMark m"
  then consider "m = enDash" | "m = emDash"
    | c where "m = [c]" "isSpace c \<or> c \<in> set ''-(),.:''"
    by (cases m) (auto simp: isMark_def)
  then show ?thesis
  proof cases
    case 1
    then show ?thesis by (simp add: enDash_def isUpper_def)
  next
    case 2
    then show ?thesis by (simp add: emDash_def isUpper_def)
  next
    case 3
    then show ?thesis by (auto simp: space_not_upper) (simp_all add: isUpper_def)
  qed
qed

lemma toLowerCase_id: "\<forall>c \<in> set s. \<not> isUpper c \<Longrightarrow> toLowerCase s = s"
  by (induction s) (simp_all add: toLowerCase_def lowerChar_other)

lemma toLowerCase_append: "toLowerCase (a @ b) = toLowerCase a @ toLowerCase b"
  by (simp add: toLowerCase_def)

lemma toLowerCase_marks: "list_all isMark ms \<Longrightarrow> toLowerCase (concat ms) = concat ms"
proof (induction ms)
  case Nil
  show ?case by (simp add: toLowerCase_def)
next
  case (Cons m ms)
  then have "toLowerCase m = m" by (intro toLowerCase_id mark_not_upper) simp
  with Cons show ?case by (simp add: toLowerCase_append)
qed

lemma toLowerCase_spell:
  "list_all (\<lambda>(ms, w). list_all isMark ms) segs \<Longrightarrow> list_all isMark marks \<Longrightarrow>
   toLowerCase (spell segs marks) = spell (map (\<lambda>(ms, w). (ms, toLowerCase w)) segs) marks"
proof (induction segs)
  case Nil
  then show ?case by (simp add: spell_def toLowerCase_marks)
next
  case (Cons seg segs)
  obtain ms w where seg: "seg = (ms, w)" by (cases seg)
  from Cons show ?case
    by (simp add: seg spell_def toLowerCase_append toLowerCase_marks)
qed

lemma lowWord_toLowerCase: "isWord w \<Longrightarrow> lowWord (toLowerCase w)"
  by (auto simp: isWord_def lowWord_def toLowerCase_def list_all_iff wordChar_lower)

subsection \<open>Dashes and punctuation marks\<close>

lemma oneDash_prev: "oneDash p s = oneDash None s"
  by (simp add: oneDash_def)

lemma dash_prev: "replaceAllFrom oneDash p k s = replaceAllFrom oneDash None k s"
proof (induction s arbitrary: p k)
  case Nil
  show ?case by simp
next
  case (Cons c cs)
  show ?case
  proof (cases k)
    case 0
    show ?thesis
      unfolding 0 replaceAllFrom.simps oneDash_prev [of p]
      using Cons [of "Some c"] by (simp split: option.splits)
  next
    case (Suc k')
    show ?thesis unfolding Suc replaceAllFrom.simps using Cons [of "Some c" k'] by simp
  qed
qed

lemma blanked_Nil: "blanked [] = []"
  by (simp add: blanked_def replaceAll_def)

lemma plainChar_lower: "plainChar c \<Longrightarrow> plainChar (lowerChar c)"
proof (cases "isUpper c")
  case True
  then have "isLower (lowerChar c)" by (rule upper_lower)
  then have "isWordChar (lowerChar c)" by (simp add: isWordChar_def)
  then show ?thesis
    using wordChar_plain [of "lowerChar c"] wordChar_ascii [of "lowerChar c"]
    by (simp add: plainChar_def)
next
  case False
  assume "plainChar c"
  with False show ?thesis by (simp add: lowerChar_other)
qed

lemma isToken_lower: "isToken w \<Longrightarrow> isToken (toLowerCase w)"
  by (auto simp: isToken_def toLowerCase_def list_all_iff plainChar_lower)

lemma isWord_token: "isWord w \<Longrightarrow> isToken w"
  using wordChar_plain wordChar_ascii
  by (auto simp: isWord_def isToken_def list_all_iff plainChar_def)

lemma plainChar_kept: "plainChar c \<Longrightarrow> blanked (c # s) = c # blanked s"
proof -
  assume p: "plainChar c"
  then have "isAscii c" by (simp add: plainChar_def)
  then have "c \<noteq> CHR 0xE2" by (auto simp: isAscii_def)
  moreover from p have "c \<noteq> CHR ''-''" by (simp add: plainChar_def)
  ultimately have "oneDash None (c # s) = None" by (auto simp: oneDash_def)
  then have "replaceAllFrom oneDash None 0 (c # s) = c # replaceAllFrom oneDash None 0 s"
    by (simp add: dash_prev [of "Some c"])
  with p show ?thesis by (simp add: blanked_def replaceAll_def plainChar_def)
qed

lemma blanked_token: "list_all plainChar w \<Longrightarrow> blanked (w @ s) = w @ blanked s"
  by (induction w) (simp_all add: plainChar_kept)

lemma blanked_mark: "isMark m \<Longrightarrow> \<exists>c. isSpace c \<and> blanked (m @ s) = c # blanked s"
proof -
  assume "isMark m"
  then consider "m = enDash" | "m = emDash" | "m = ''-''"
    | c where "m = [c]" "isSpace c" | c where "m = [c]" "c \<in> set ''(),.:''"
    by (cases m) (auto simp: isMark_def)
  then show ?thesis
  proof cases
    case 1
    have "replaceAllFrom oneDash None 0 (enDash @ s) = CHR '' '' # replaceAllFrom oneDash None 0 s"
      by (simp add: enDash_def oneDash_def eval_nat_numeral dash_prev [of "Some _"])
    then show ?thesis by (simp add: 1 blanked_def replaceAll_def isSpace_def)
  next
    case 2
    have "replaceAllFrom oneDash None 0 (emDash @ s) = CHR '' '' # replaceAllFrom oneDash None 0 s"
      by (simp add: emDash_def oneDash_def eval_nat_numeral dash_prev [of "Some _"])
    then show ?thesis by (simp add: 2 blanked_def replaceAll_def isSpace_def)
  next
    case 3
    have "replaceAllFrom oneDash None 0 (''-'' @ s) = CHR '' '' # replaceAllFrom oneDash None 0 s"
      by (simp add: oneDash_def dash_prev [of "Some _"])
    then show ?thesis by (simp add: 3 blanked_def replaceAll_def isSpace_def)
  next
    case 4
    then have "c \<noteq> CHR ''-'' \<and> c \<noteq> CHR 0xE2 \<and> c \<notin> set ''(),.:''"
      by (auto simp: isSpace_def)
    then have "replaceAllFrom oneDash None 0 ([c] @ s) = c # replaceAllFrom oneDash None 0 s"
      and "c \<notin> set ''(),.:''"
      by (auto simp: oneDash_def dash_prev [of "Some _"])
    with 4 show ?thesis by (simp add: blanked_def replaceAll_def)
  next
    case 5
    then have "c \<noteq> CHR ''-'' \<and> c \<noteq> CHR 0xE2" by auto
    then have "replaceAllFrom oneDash None 0 ([c] @ s) = c # replaceAllFrom oneDash None 0 s"
      by (auto simp: oneDash_def dash_prev [of "Some _"])
    with 5 show ?thesis by (simp add: blanked_def replaceAll_def isSpace_def)
  qed
qed

lemma blanked_marks:
  "list_all isMark ms \<Longrightarrow>
   \<exists>sp. list_all isSpace sp \<and> length sp = length ms \<and> blanked (concat ms @ s) = sp @ blanked s"
proof (induction ms)
  case Nil
  show ?case by simp
next
  case (Cons m ms)
  then obtain sp where sp: "list_all isSpace sp" "length sp = length ms"
      "blanked (concat ms @ s) = sp @ blanked s"
    by auto
  from Cons.prems have "isMark m" by simp
  then obtain c where c: "isSpace c" "blanked (m @ concat ms @ s) = c # blanked (concat ms @ s)"
    using blanked_mark by blast
  show ?case
    using sp c by (intro exI [of _ "c # sp"]) simp
qed

subsection \<open>Collapsing white space\<close>

lemma collapse_white:
  "list_all isSpace sp \<Longrightarrow> replaceRunsFrom isSpace '' '' True (sp @ s) = replaceRunsFrom isSpace '' '' True s"
  by (induction sp) simp_all

lemma collapse_white_first:
  "list_all isSpace sp \<Longrightarrow> sp \<noteq> [] \<Longrightarrow>
   replaceRunsFrom isSpace '' '' False (sp @ s) = CHR '' '' # replaceRunsFrom isSpace '' '' True s"
  by (cases sp) (simp_all add: collapse_white)

lemma collapse_word:
  "\<forall>c \<in> set w. \<not> isSpace c \<Longrightarrow> w \<noteq> [] \<Longrightarrow>
   replaceRunsFrom isSpace '' '' b (w @ s) = w @ replaceRunsFrom isSpace '' '' False s"
proof (induction w arbitrary: b)
  case Nil
  then show ?case by simp
next
  case (Cons c w)
  show ?case
  proof (cases "w = []")
    case True
    with Cons.prems show ?thesis by simp
  next
    case False
    with Cons.prems Cons.IH [of False] show ?thesis by simp
  qed
qed

lemma token_plain:
  "isToken w \<Longrightarrow> w \<noteq> [] \<and> list_all plainChar w \<and> (\<forall>c \<in> set w. \<not> isSpace c)"
  by (auto simp: isToken_def list_all_iff plainChar_def)

lemma collapse_segment:
  assumes "list_all isMark ms" and "ms \<noteq> []" and "isToken w"
  shows "replaceRunsFrom isSpace '' '' False (blanked (concat ms @ w @ s))
           = CHR '' '' # w @ replaceRunsFrom isSpace '' '' False (blanked s)"
proof -
  from assms(1) obtain sp where sp: "list_all isSpace sp" "length sp = length ms"
      "blanked (concat ms @ w @ s) = sp @ blanked (w @ s)"
    using blanked_marks by blast
  from sp(2) assms(2) have ne: "sp \<noteq> []" by auto
  from assms(3) have w: "w \<noteq> []" "list_all plainChar w" "\<forall>c \<in> set w. \<not> isSpace c"
    using token_plain by auto
  show ?thesis
    unfolding sp(3) collapse_white_first [OF sp(1) ne] blanked_token [OF w(2)]
      collapse_word [OF w(3) w(1)] ..
qed

lemma collapse_marks:
  assumes "list_all isMark ms"
  shows "replaceRunsFrom isSpace '' '' False (blanked (concat ms))
           = (if ms = [] then [] else '' '')"
proof (cases "ms = []")
  case True
  then show ?thesis by (simp add: blanked_Nil)
next
  case False
  from assms obtain sp where sp: "list_all isSpace sp" "length sp = length ms"
      "blanked (concat ms @ []) = sp @ blanked []"
    using blanked_marks by blast
  from sp(2) False have ne: "sp \<noteq> []" by auto
  from sp(3) have "blanked (concat ms) = sp @ []" by (simp add: blanked_Nil)
  then show ?thesis
    using False collapse_white_first [OF sp(1) ne, of "[]"] by simp
qed

lemma collapse_tail:
  assumes "list_all (\<lambda>(ms, w). list_all isMark ms \<and> isToken w) segs"
      and "list_all (\<lambda>(ms, w). ms \<noteq> []) segs"
      and "list_all isMark marks"
  shows "replaceRunsFrom isSpace '' '' False (blanked (spell segs marks))
           = concat (map (\<lambda>(ms, w). CHR '' '' # w) segs) @ (if marks = [] then [] else '' '')"
  using assms(1,2)
proof (induction segs)
  case Nil
  show ?case using collapse_marks [OF assms(3)] by (simp add: spell_def)
next
  case (Cons seg segs)
  obtain ms w where seg: "seg = (ms, w)" by (cases seg)
  from Cons.prems have h: "list_all isMark ms" "ms \<noteq> []" "isToken w" by (simp_all add: seg)
  from Cons.prems have ih: "replaceRunsFrom isSpace '' '' False (blanked (spell segs marks))
           = concat (map (\<lambda>(ms, w). CHR '' '' # w) segs) @ (if marks = [] then [] else '' '')"
    by (intro Cons.IH) simp_all
  have "spell (seg # segs) marks = concat ms @ w @ spell segs marks"
    by (simp add: seg spell_def)
  then show ?case
    by (simp add: collapse_segment [OF h] ih seg)
qed

lemma join_tail: "join '' '' (w # ws) = w @ concat (map (\<lambda>w. CHR '' '' # w) ws)"
  by (induction ws arbitrary: w) simp_all

lemma join_ends:
  "ws \<noteq> [] \<Longrightarrow> \<forall>w \<in> set ws. w \<noteq> [] \<and> (\<forall>c \<in> set w. \<not> isSpace c) \<Longrightarrow>
   join '' '' ws \<noteq> [] \<and> \<not> isSpace (hd (join '' '' ws)) \<and> \<not> isSpace (last (join '' '' ws))"
proof (induction "'' ''" ws rule: join.induct)
  case 1
  then show ?case by simp
next
  case (2 x)
  then show ?case by simp
next
  case (3 x y ys)
  then show ?case by simp
qed

lemma dropWhile_white: "list_all P a \<Longrightarrow> dropWhile P (a @ s) = dropWhile P s"
  by (induction a) simp_all

lemma trim_core:
  assumes "x \<noteq> []" and "\<not> isSpace (hd x)" and "\<not> isSpace (last x)"
      and "list_all isSpace a" and "list_all isSpace b"
  shows "trim (a @ x @ b) = x"
proof -
  from assms(1,2) have 1: "dropWhile isSpace (x @ b) = x @ b" by (cases x) simp_all
  from assms(1,3) have 2: "dropWhile isSpace (rev x) = rev x"
    by (cases x rule: rev_cases) simp_all
  from assms(5) have 3: "list_all isSpace (rev b)" by (simp add: list_all_iff)
  show ?thesis
    by (simp add: trim_def dropWhile_white [OF assms(4)] 1 dropWhile_white [OF 3] 2)
qed

lemma collapsed_words:
  assumes "list_all (\<lambda>(ms, w). list_all isMark ms \<and> isToken w) segs"
      and "list_all (\<lambda>(ms, w). ms \<noteq> []) (tl segs)"
      and "list_all isMark marks"
  shows "trim (replaceRuns isSpace '' '' (blanked (spell segs marks))) = join '' '' (map snd segs)"
proof (cases segs)
  case Nil
  have "replaceRunsFrom isSpace '' '' False (blanked (concat marks)) = [] \<or>
        replaceRunsFrom isSpace '' '' False (blanked (concat marks)) = '' ''"
    using collapse_marks [OF assms(3)] by auto
  then have "trim (replaceRunsFrom isSpace '' '' False (blanked (concat marks))) = []"
    by (auto simp: trim_def isSpace_def)
  then show ?thesis by (simp add: Nil spell_def replaceRuns_def)
next
  case (Cons seg rest)
  obtain ms w where seg: "seg = (ms, w)" by (cases seg)
  from assms(1) have h: "list_all isMark ms" "isToken w"
    and r: "list_all (\<lambda>(ms, w). list_all isMark ms \<and> isToken w) rest"
    by (simp_all add: Cons seg)
  from assms(2) have r2: "list_all (\<lambda>(ms, w). ms \<noteq> []) rest" by (simp add: Cons)
  let ?tail = "concat (map (\<lambda>(ms, w). CHR '' '' # w) rest)"
  let ?post = "(if marks = [] then [] else '' '')"
  from h(2) have w: "w \<noteq> []" "list_all plainChar w" "\<forall>c \<in> set w. \<not> isSpace c"
    using token_plain by auto
  have sp: "spell segs marks = concat ms @ w @ spell rest marks"
    by (simp add: Cons seg spell_def)
  have t: "replaceRunsFrom isSpace '' '' False (blanked (spell rest marks)) = ?tail @ ?post"
    by (rule collapse_tail [OF r r2 assms(3)])
  have "\<exists>a. list_all isSpace a
          \<and> replaceRunsFrom isSpace '' '' False (blanked (spell segs marks)) = a @ (w @ ?tail) @ ?post"
  proof (cases "ms = []")
    case True
    show ?thesis
      unfolding sp True
      by (intro exI [of _ "[]"]) (simp add: blanked_token [OF w(2)] collapse_word [OF w(3) w(1)] t)
  next
    case False
    show ?thesis
      unfolding sp collapse_segment [OF h(1) False h(2)] t
      by (intro exI [of _ "'' ''"]) (simp add: isSpace_def)
  qed
  then obtain a where a: "list_all isSpace a"
      "replaceRunsFrom isSpace '' '' False (blanked (spell segs marks)) = a @ (w @ ?tail) @ ?post"
    by blast
  have tail: "?tail = concat (map (\<lambda>w. CHR '' '' # w) (map snd rest))"
    by (induction rest) (simp_all add: case_prod_beta)
  have x: "w @ ?tail = join '' '' (map snd segs)"
    by (simp add: Cons seg join_tail tail)
  have words: "\<forall>w \<in> set (map snd segs). w \<noteq> [] \<and> (\<forall>c \<in> set w. \<not> isSpace c)"
    using assms(1) token_plain by (fastforce simp: list_all_iff)
  have ends: "join '' '' (map snd segs) \<noteq> [] \<and> \<not> isSpace (hd (join '' '' (map snd segs)))
      \<and> \<not> isSpace (last (join '' '' (map snd segs)))"
    by (rule join_ends [OF _ words]) (simp add: Cons)
  have post: "list_all isSpace ?post" by (simp add: isSpace_def)
  show ?thesis
    unfolding replaceRuns_def a(2) x
    using ends a(1) post by (intro trim_core) simp_all
qed

subsection \<open>Replacing from left to right\<close>

lemma replaceAllFrom_skip:
  "replaceAllFrom rx p (length xs) (xs @ ys)
     = replaceAllFrom rx (if xs = [] then p else Some (last xs)) 0 ys"
  by (induction xs arbitrary: p) simp_all

lemma replaceAllFrom_match:
  assumes "rx p (xs @ ys) = Some (length xs, rep)" and "xs \<noteq> []"
  shows "replaceAllFrom rx p 0 (xs @ ys) = rep @ replaceAllFrom rx (Some (last xs)) 0 ys"
proof -
  from assms(2) obtain c cs where xs: "xs = c # cs" by (cases xs) auto
  have "replaceAllFrom rx p 0 (xs @ ys) = rep @ replaceAllFrom rx (Some c) (length cs) (cs @ ys)"
    using assms(1) by (simp add: xs)
  also have "replaceAllFrom rx (Some c) (length cs) (cs @ ys)
      = replaceAllFrom rx (if cs = [] then Some c else Some (last cs)) 0 ys"
    by (rule replaceAllFrom_skip)
  also have "(if cs = [] then Some c else Some (last cs)) = Some (last xs)"
    by (simp add: xs)
  finally show ?thesis .
qed

lemma anchored_inside:
  assumes "wordAnchored rx"
  shows "list_all isWordChar w \<Longrightarrow> wordBefore p \<Longrightarrow>
         replaceAllFrom rx p 0 (w @ s) = w @ replaceAllFrom rx (if w = [] then p else Some (last w)) 0 s"
proof (induction w arbitrary: p)
  case Nil
  show ?case by simp
next
  case (Cons c w)
  from assms Cons.prems(2) have none: "rx p ((c # w) @ s) = None" by (simp add: wordAnchored_def)
  from Cons.prems(1) have wb: "wordBefore (Some c)" by (simp add: wordBefore_def)
  from Cons.prems(1) have "list_all isWordChar w" by simp
  from Cons.IH [OF this wb] none show ?case by simp
qed

lemma anchored_word:
  assumes "wordAnchored rx" and "w \<noteq> []" and "list_all isWordChar w" and "rx p (w @ s) = None"
  shows "replaceAllFrom rx p 0 (w @ s) = w @ replaceAllFrom rx (Some (last w)) 0 s"
proof -
  from assms(2) obtain c cs where w: "w = c # cs" by (cases w) auto
  from assms(3) have wb: "wordBefore (Some c)" and cs: "list_all isWordChar cs"
    by (simp_all add: w wordBefore_def)
  show ?thesis
    using assms(4) anchored_inside [OF assms(1) cs wb, of s] by (simp add: w)
qed

lemma anchored_space:
  assumes "wordAnchored rx"
  shows "replaceAllFrom rx p 0 (CHR '' '' # s) = CHR '' '' # replaceAllFrom rx None 0 s"
proof -
  have nw: "\<not> wordBefore (Some (CHR '' ''))" by (simp add: wordBefore_def isWordChar_def isUpper_def isLower_def isDigit_def)
  have prev: "replaceAllFrom rx q k t = replaceAllFrom rx None k t" if "\<not> wordBefore q" for q k t
  proof (cases t)
    case Nil
    then show ?thesis by simp
  next
    case (Cons c cs)
    show ?thesis
    proof (cases k)
      case 0
      from assms that have "rx q (c # cs) = rx None (c # cs)" by (simp add: wordAnchored_def)
      then show ?thesis by (simp add: Cons 0)
    next
      case (Suc k')
      then show ?thesis by (simp add: Cons)
    qed
  qed
  from assms have "rx p (CHR '' '' # s) = None" by (simp add: wordAnchored_def)
  then show ?thesis using prev [OF nw, of 0 s] by simp
qed

lemma anchored_start:
  assumes "wordAnchored rx" and "\<not> wordBefore p"
  shows "replaceAllFrom rx p 0 s = replaceAllFrom rx None 0 s"
proof (cases s)
  case Nil
  then show ?thesis by simp
next
  case (Cons c cs)
  from assms have "rx p (c # cs) = rx None (c # cs)" by (simp add: wordAnchored_def)
  then show ?thesis by (simp add: Cons)
qed

subsection \<open>Roman numerals\<close>

lemma prefix_word:
  assumes w: "lowWord w" and rest: "rest = [] \<or> (\<exists>t. rest = CHR '' '' # t)"
      and r: "list_all isWordChar r" "toLowerCase r = r"
  shows "(toLowerCase (take (length r) (w @ rest)) = r \<and> boundaryAfter (drop (length r) (w @ rest)))
         \<longleftrightarrow> w = r"
proof
  assume eq: "w = r"
  have "boundaryAfter rest"
    using rest by (auto simp: boundaryAfter_def isWordChar_def isUpper_def isLower_def isDigit_def)
  then show "toLowerCase (take (length r) (w @ rest)) = r \<and> boundaryAfter (drop (length r) (w @ rest))"
    by (simp add: eq r(2))
next
  assume a: "toLowerCase (take (length r) (w @ rest)) = r \<and> boundaryAfter (drop (length r) (w @ rest))"
  from w have low: "toLowerCase w = w" by (intro toLowerCase_id) (simp add: lowWord_def)
  consider (less) "length r < length w" | (equal) "length r = length w" | (more) "length w < length r"
    by linarith
  then show "w = r"
  proof cases
    case less
    then obtain x xs where d: "drop (length r) w = x # xs"
      by (cases "drop (length r) w") auto
    then have "x \<in> set w" by (metis in_set_dropD list.set_intros(1))
    with w have "isWordChar x" by (simp add: lowWord_def)
    moreover from a less have "boundaryAfter ((x # xs) @ rest)" by (simp add: d)
    ultimately show ?thesis by (simp add: boundaryAfter_def)
  next
    case equal
    with a low show ?thesis by simp
  next
    case more
    from rest show ?thesis
    proof
      assume "rest = []"
      with a more have "length r = length w"
        by (metis append_Nil2 length_map take_all_iff less_imp_le toLowerCase_def)
      with more show ?thesis by simp
    next
      assume "\<exists>t. rest = CHR '' '' # t"
      then obtain t where t: "rest = CHR '' '' # t" ..
      from more obtain m where m: "length r - length w = Suc m"
        by (cases "length r - length w") auto
      have "take (length r) (w @ rest) = w @ CHR '' '' # take m t"
        using more by (simp add: t m)
      with a have "toLowerCase (w @ CHR '' '' # take m t) = r" by simp
      then have "lowerChar (CHR '' '') \<in> set r" by (auto simp: toLowerCase_def)
      then have "CHR '' '' \<in> set r" by (simp add: lowerChar_space isSpace_def)
      with r(1) have "isWordChar (CHR '' '')" by (simp add: list_all_iff)
      then show ?thesis by (simp add: isWordChar_def isUpper_def isLower_def isDigit_def)
    qed
  qed
qed

lemma romanWords_plain: "r \<in> set romanWords \<Longrightarrow> list_all isWordChar r \<and> toLowerCase r = r"
  by (auto simp: romanWords_def isWordChar_def isLower_def toLowerCase_def lowerChar_def)

lemma romanNumeral_word:
  assumes w: "lowWord w" and rest: "rest = [] \<or> (\<exists>t. rest = CHR '' '' # t)"
  shows "romanNumeral (w @ rest) = (if w \<in> set romanWords then Some w else None)"
proof -
  let ?P = "\<lambda>r. toLowerCase (take (length r) (w @ rest)) = r \<and> boundaryAfter (drop (length r) (w @ rest))"
  have P: "?P r \<longleftrightarrow> w = r" if "r \<in> set romanWords" for r
    using romanWords_plain [OF that] by (intro prefix_word [OF w rest]) simp_all
  have "find ?P romanWords = find (\<lambda>r. w = r) romanWords"
    by (rule find_cong [OF refl]) (rule P)
  also have "\<dots> = (if w \<in> set romanWords then Some w else None)"
    by (simp add: romanWords_def)
  finally have f: "find ?P romanWords = (if w \<in> set romanWords then Some w else None)" .
  show ?thesis
    unfolding romanNumeral_def romanWords_def [symmetric] f by simp
qed

lemma romanToInt_digit: "w \<in> set romanWords \<Longrightarrow> romanToInt w = romanDigit w"
  by (auto simp: romanWords_def romanToInt_def romanDigit_def toUpperCase_def upperChar_def)

lemma romanDigit_other: "w \<notin> set romanWords \<Longrightarrow> romanDigit w = w"
  by (auto simp: romanWords_def romanDigit_def)

subsection \<open>Words joined by single spaces\<close>

lemma tail_form:
  "concat (map (\<lambda>w. CHR '' '' # w) ws) = []
   \<or> (\<exists>t. concat (map (\<lambda>w. CHR '' '' # w) ws) = CHR '' '' # t)"
  by (cases ws) simp_all

lemma tail_join: "ws \<noteq> [] \<Longrightarrow> concat (map (\<lambda>w. CHR '' '' # w) ws) = CHR '' '' # join '' '' ws"
  by (cases ws) (simp_all add: join_tail)

lemma lowWord_chars: "lowWord w \<Longrightarrow> list_all isWordChar w"
  by (simp add: lowWord_def list_all_iff)

lemma lowWord_hd: "lowWord w \<Longrightarrow> \<exists>c cs. w = c # cs \<and> \<not> isSpace c"
  by (cases w) (auto simp: lowWord_def space_not_word)

subsection \<open>Standalone Roman numerals\<close>

lemma space_not_wordBefore: "\<not> wordBefore (Some (CHR '' ''))"
  by (simp add: wordBefore_def isWordChar_def isUpper_def isLower_def isDigit_def)

lemma romanNumeral_space: "romanNumeral (CHR '' '' # s) = None"
  by (simp add: romanNumeral_def toLowerCase_def lowerChar_space isSpace_def)

lemma standalone_anchored: "wordAnchored standaloneRoman"
  by (simp add: wordAnchored_def standaloneRoman_def romanNumeral_space wordBefore_def)

lemma standalone_at:
  assumes "lowWord w" and "rest = [] \<or> (\<exists>t. rest = CHR '' '' # t)"
  shows "standaloneRoman None (w @ rest)
           = (if w \<in> set romanWords then Some (length w, romanDigit w) else None)"
  by (simp add: standaloneRoman_def wordBefore_def romanNumeral_word [OF assms] romanToInt_digit)

lemma standalone_step:
  assumes "lowWord w" and "rest = [] \<or> (\<exists>t. rest = CHR '' '' # t)"
  shows "replaceAllFrom standaloneRoman None 0 (w @ rest)
           = romanDigit w @ replaceAllFrom standaloneRoman (Some (last w)) 0 rest"
proof (cases "w \<in> set romanWords")
  case True
  from assms(1) have ne: "w \<noteq> []" by (simp add: lowWord_def)
  from True have "standaloneRoman None (w @ rest) = Some (length w, romanDigit w)"
    by (simp add: standalone_at [OF assms])
  then show ?thesis using ne by (rule replaceAllFrom_match)
next
  case False
  from assms(1) have ne: "w \<noteq> []" by (simp add: lowWord_def)
  from False have "standaloneRoman None (w @ rest) = None"
    by (simp add: standalone_at [OF assms])
  with standalone_anchored ne lowWord_chars [OF assms(1)]
  have "replaceAllFrom standaloneRoman None 0 (w @ rest)
          = w @ replaceAllFrom standaloneRoman (Some (last w)) 0 rest"
    by (rule anchored_word)
  with False show ?thesis by (simp add: romanDigit_other)
qed

lemma standalone_words:
  "\<forall>w \<in> set ws. lowWord w \<Longrightarrow>
   replaceAllFrom standaloneRoman None 0 (join '' '' ws) = join '' '' (map romanDigit ws)"
proof (induction ws rule: induct_list012)
  case 1
  show ?case by simp
next
  case (2 w)
  then have w: "lowWord w" by simp
  from standalone_step [OF w, of "[]"] show ?case by simp
next
  case (3 w v ws)
  then have w: "lowWord w" by simp
  from 3 have ih: "replaceAllFrom standaloneRoman None 0 (join '' '' (v # ws))
                     = join '' '' (map romanDigit (v # ws))"
    by simp
  have "replaceAllFrom standaloneRoman None 0 (w @ CHR '' '' # join '' '' (v # ws))
          = romanDigit w @ replaceAllFrom standaloneRoman (Some (last w)) 0 (CHR '' '' # join '' '' (v # ws))"
    by (rule standalone_step [OF w]) simp
  also have "replaceAllFrom standaloneRoman (Some (last w)) 0 (CHR '' '' # join '' '' (v # ws))
          = CHR '' '' # replaceAllFrom standaloneRoman None 0 (join '' '' (v # ws))"
    by (rule anchored_space [OF standalone_anchored])
  finally show ?case by (simp add: ih)
qed

subsection \<open>Roman numerals after the word semester\<close>

lemma semester_anchored: "wordAnchored semesterRoman"
  by (simp add: wordAnchored_def semesterRoman_def wordBefore_def toLowerCase_def
        lowerChar_space isSpace_def)

lemma semester_plain: "list_all isWordChar ''semester'' \<and> toLowerCase ''semester'' = ''semester''"
  by (simp add: isWordChar_def isLower_def toLowerCase_def lowerChar_def)

lemma semester_none:
  assumes "lowWord a" and "rest = [] \<or> (\<exists>t. rest = CHR '' '' # t)" and "a \<noteq> ''semester''"
  shows "semesterRoman None (a @ rest) = None"
proof (cases "toLowerCase (take 8 (a @ rest)) = ''semester''")
  case False
  then show ?thesis by (simp add: semesterRoman_def)
next
  case True
  have len: "length ''semester'' = 8" by simp
  have "(toLowerCase (take (length ''semester'') (a @ rest)) = ''semester''
          \<and> boundaryAfter (drop (length ''semester'') (a @ rest))) \<longleftrightarrow> a = ''semester''"
    using semester_plain by (intro prefix_word [OF assms(1,2)]) simp_all
  then have "(toLowerCase (take 8 (a @ rest)) = ''semester''
          \<and> boundaryAfter (drop 8 (a @ rest))) \<longleftrightarrow> a = ''semester''"
    by (simp only: len)
  with True assms(3) have "\<not> boundaryAfter (drop 8 (a @ rest))" by blast
  then obtain x xs where d: "drop 8 (a @ rest) = x # xs" and x: "isWordChar x"
    by (cases "drop 8 (a @ rest)") (auto simp: boundaryAfter_def)
  from x have "\<not> isSpace x" using space_not_word by blast
  then have "takeWhile isSpace (drop 8 (a @ rest)) = []" unfolding d by simp
  then show ?thesis by (simp add: semesterRoman_def Let_def)
qed

lemma semester_alone: "lowWord a \<Longrightarrow> semesterRoman None a = None"
proof -
  assume a: "lowWord a"
  have "takeWhile isSpace (drop 8 a) = []"
  proof (cases "drop 8 a")
    case Nil
    then show ?thesis by simp
  next
    case (Cons x xs)
    then have "x \<in> set a" by (metis in_set_dropD list.set_intros(1))
    with a have "\<not> isSpace x" by (auto simp: lowWord_def space_not_word)
    then show ?thesis by (simp add: Cons)
  qed
  then show ?thesis by (simp add: semesterRoman_def Let_def)
qed

lemma semester_at:
  assumes a: "lowWord a" and b: "lowWord b" and rest: "rest = [] \<or> (\<exists>t. rest = CHR '' '' # t)"
  shows "semesterRoman None (a @ CHR '' '' # b @ rest)
           = (if a = ''semester'' \<and> b \<in> set romanWords
              then Some (length (a @ CHR '' '' # b), ''semester '' @ romanDigit b) else None)"
proof (cases "a = ''semester''")
  case False
  then show ?thesis using semester_none [OF a, of "CHR '' '' # b @ rest"] by simp
next
  case True
  from lowWord_hd [OF b] obtain c cs where c: "b = c # cs" "\<not> isSpace c" by blast
  have sp: "isSpace (CHR '' '')" by (simp add: isSpace_def)
  have t: "takeWhile isSpace (b @ rest) = []"
    and d: "dropWhile isSpace (b @ rest) = b @ rest"
    using c by simp_all
  show ?thesis
    unfolding True
    by (simp add: semesterRoman_def Let_def wordBefore_def semester_plain sp t d
          romanNumeral_word [OF b rest] romanToInt_digit)
qed

lemma afterSemester_empty: "afterSemester ws = [] \<longleftrightarrow> ws = []"
  by (induction ws rule: afterSemester.induct) simp_all

lemma semester_words:
  "\<forall>w \<in> set ws. lowWord w \<Longrightarrow>
   replaceAllFrom semesterRoman None 0 (join '' '' ws) = join '' '' (afterSemester ws)"
proof (induction ws rule: afterSemester.induct)
  case (1 a b ws)
  from 1(3) have a: "lowWord a" and b: "lowWord b" and ws: "\<forall>w \<in> set ws. lowWord w" by simp_all
  let ?tail = "concat (map (\<lambda>w. CHR '' '' # w) ws)"
  have j: "join '' '' (a # b # ws) = a @ CHR '' '' # b @ ?tail"
    by (simp add: join_tail)
  have at: "semesterRoman None (a @ CHR '' '' # b @ ?tail)
           = (if a = ''semester'' \<and> b \<in> set romanWords
              then Some (length (a @ CHR '' '' # b), ''semester '' @ romanDigit b) else None)"
    by (rule semester_at [OF a b tail_form])
  show ?case
  proof (cases "a = ''semester'' \<and> b \<in> set romanWords")
    case True
    from 1(1) [OF True ws]
    have ih: "replaceAllFrom semesterRoman None 0 (join '' '' ws) = join '' '' (afterSemester ws)" .
    have tl: "replaceAllFrom semesterRoman q 0 ?tail = concat (map (\<lambda>w. CHR '' '' # w) (afterSemester ws))"
      for q
    proof (cases "ws = []")
      case True
      then show ?thesis by simp
    next
      case False
      then have ne: "afterSemester ws \<noteq> []" by (simp add: afterSemester_empty)
      show ?thesis
        unfolding tail_join [OF False] tail_join [OF ne] anchored_space [OF semester_anchored] ih ..
    qed
    have m: "semesterRoman None ((a @ CHR '' '' # b) @ ?tail)
               = Some (length (a @ CHR '' '' # b), ''semester '' @ romanDigit b)"
      using at True by simp
    have "replaceAllFrom semesterRoman None 0 ((a @ CHR '' '' # b) @ ?tail)
            = (''semester '' @ romanDigit b)
              @ replaceAllFrom semesterRoman (Some (last (a @ CHR '' '' # b))) 0 ?tail"
      using m by (rule replaceAllFrom_match) simp
    then have "replaceAllFrom semesterRoman None 0 (a @ CHR '' '' # b @ ?tail)
            = ''semester '' @ romanDigit b @ concat (map (\<lambda>w. CHR '' '' # w) (afterSemester ws))"
      by (simp add: tl)
    then have "replaceAllFrom semesterRoman None 0 (join '' '' (a # b # ws))
            = ''semester '' @ romanDigit b @ concat (map (\<lambda>w. CHR '' '' # w) (afterSemester ws))"
      by (simp only: j)
    also have "\<dots> = join '' '' (afterSemester (a # b # ws))"
      using True by (simp add: join_tail)
    finally show ?thesis .
  next
    case False
    from 1(2) [OF False] b ws
    have ih: "replaceAllFrom semesterRoman None 0 (join '' '' (b # ws))
                = join '' '' (afterSemester (b # ws))"
      by simp
    have ne: "afterSemester (b # ws) \<noteq> []" by (simp add: afterSemester_empty)
    from a have an: "a \<noteq> []" by (simp add: lowWord_def)
    from at False have none: "semesterRoman None (a @ CHR '' '' # b @ ?tail) = None" by simp
    have "replaceAllFrom semesterRoman None 0 (a @ CHR '' '' # b @ ?tail)
            = a @ replaceAllFrom semesterRoman (Some (last a)) 0 (CHR '' '' # b @ ?tail)"
      using semester_anchored an lowWord_chars [OF a] none by (rule anchored_word)
    also have "replaceAllFrom semesterRoman (Some (last a)) 0 (CHR '' '' # b @ ?tail)
            = CHR '' '' # replaceAllFrom semesterRoman None 0 (b @ ?tail)"
      by (rule anchored_space [OF semester_anchored])
    also have "b @ ?tail = join '' '' (b # ws)" by (simp add: join_tail)
    finally have "replaceAllFrom semesterRoman None 0 (a @ CHR '' '' # join '' '' (b # ws))
            = a @ CHR '' '' # join '' '' (afterSemester (b # ws))"
      by (simp only: ih)
    moreover have "join '' '' (a # b # ws) = a @ CHR '' '' # join '' '' (b # ws)" by simp
    ultimately have "replaceAllFrom semesterRoman None 0 (join '' '' (a # b # ws))
            = a @ CHR '' '' # join '' '' (afterSemester (b # ws))"
      by (simp only:)
    also have "\<dots> = join '' '' (a # afterSemester (b # ws))"
      using ne by (cases "afterSemester (b # ws)") simp_all
    also have "\<dots> = join '' '' (afterSemester (a # b # ws))"
      using False by auto
    finally show ?thesis .
  qed
next
  case (2 a)
  then have a: "lowWord a" by simp
  then have an: "a \<noteq> []" by (simp add: lowWord_def)
  have "semesterRoman None (a @ []) = None" using semester_alone [OF a] by simp
  with semester_anchored an lowWord_chars [OF a]
  have "replaceAllFrom semesterRoman None 0 (a @ []) = a @ replaceAllFrom semesterRoman (Some (last a)) 0 []"
    by (rule anchored_word)
  then show ?case by simp
next
  case 3
  show ?case by simp
qed

lemma romanDigit_lowWord: "b \<in> set romanWords \<Longrightarrow> lowWord (romanDigit b)"
  by (auto simp: romanWords_def romanDigit_def lowWord_def isWordChar_def isDigit_def isUpper_def)

lemma romanDigit_idem: "romanDigit (romanDigit w) = romanDigit w"
proof (cases "w \<in> set romanWords")
  case True
  then show ?thesis by (auto simp: romanWords_def romanDigit_def)
next
  case False
  then show ?thesis by (simp add: romanDigit_other)
qed

lemma lowWord_semester: "lowWord ''semester''"
  by (simp add: lowWord_def isWordChar_def isLower_def isUpper_def)

lemma afterSemester_lowWord:
  "\<forall>w \<in> set ws. lowWord w \<Longrightarrow> \<forall>w \<in> set (afterSemester ws). lowWord w"
  by (induction ws rule: afterSemester.induct) (simp_all add: romanDigit_lowWord lowWord_semester)

lemma afterSemester_digits: "map romanDigit (afterSemester ws) = map romanDigit ws"
  by (induction ws rule: afterSemester.induct) (simp_all add: romanDigit_idem)

subsection \<open>The key of a name made of tokens and marks\<close>

lemma wellSpelled_lower:
  assumes "wellSpelled isToken segs marks"
  shows "list_all (\<lambda>(ms, w). list_all isMark ms \<and> isToken w) (map (\<lambda>(ms, w). (ms, toLowerCase w)) segs)"
    and "list_all (\<lambda>(ms, w). ms \<noteq> []) (tl (map (\<lambda>(ms, w). (ms, toLowerCase w)) segs))"
    and "list_all isMark marks"
    and "list_all (\<lambda>(ms, w). list_all isMark ms) segs"
proof -
  from assms show "list_all (\<lambda>(ms, w). list_all isMark ms \<and> isToken w)
      (map (\<lambda>(ms, w). (ms, toLowerCase w)) segs)"
    by (auto simp: wellSpelled_def list_all_iff isToken_lower)
  from assms have "list_all (\<lambda>(ms, w). ms \<noteq> []) (tl segs)" by (simp add: wellSpelled_def)
  then show "list_all (\<lambda>(ms, w). ms \<noteq> []) (tl (map (\<lambda>(ms, w). (ms, toLowerCase w)) segs))"
    by (cases segs) (auto simp: list_all_iff)
  from assms show "list_all isMark marks" by (simp add: wellSpelled_def)
  from assms show "list_all (\<lambda>(ms, w). list_all isMark ms) segs"
    by (auto simp: wellSpelled_def list_all_iff)
qed

lemma wellSpelled_words: "wellSpelled isWord segs marks \<Longrightarrow> wellSpelled isToken segs marks"
  by (auto simp: wellSpelled_def list_all_iff isWord_token)

lemma spell_empty:
  assumes "wellSpelled isToken segs marks" and "spell segs marks = []"
  shows "segs = []"
proof (cases segs)
  case Nil
  then show ?thesis .
next
  case (Cons seg rest)
  obtain ms w where seg: "seg = (ms, w)" by (cases seg)
  from assms(1) have "w \<noteq> []" by (simp add: wellSpelled_def Cons seg isToken_def)
  with assms(2) show ?thesis by (simp add: spell_def Cons seg)
qed

lemma normalizeSemKey_tokens:
  assumes "wellSpelled isToken segs marks"
  shows "normalizeSemKey (spell segs marks)
           = replaceAll preMedical (replaceAll standaloneRoman (replaceAll semesterRoman
               (join '' '' (map (\<lambda>(ms, w). toLowerCase w) segs))))"
proof (cases "spell segs marks = []")
  case True
  with assms have "segs = []" by (rule spell_empty)
  with True show ?thesis by (simp add: normalizeSemKey_def replaceAll_def)
next
  case False
  let ?low = "map (\<lambda>(ms, w). (ms, toLowerCase w)) segs"
  note l = wellSpelled_lower [OF assms]
  have s1: "toLowerCase (spell segs marks) = spell ?low marks"
    by (rule toLowerCase_spell [OF l(4) l(3)])
  have s4: "trim (replaceRuns isSpace '' '' (blanked (spell ?low marks))) = join '' '' (map snd ?low)"
    by (rule collapsed_words [OF l(1) l(2) l(3)])
  have ws: "map snd ?low = map (\<lambda>(ms, w). toLowerCase w) segs"
    by (simp add: case_prod_beta comp_def)
  have "normalizeSemKey (spell segs marks)
          = replaceAll preMedical (replaceAll standaloneRoman (replaceAll semesterRoman
              (trim (replaceRuns isSpace '' '' (blanked (toLowerCase (spell segs marks)))))))"
    using False by (simp add: normalizeSemKey_def Let_def blanked_def)
  then show ?thesis by (simp only: s1 s4 ws)
qed

subsection \<open>The key of a name made of words and marks\<close>

lemma normalizeSemKey_words:
  assumes "wellSpelled isWord segs marks"
  shows "normalizeSemKey (spell segs marks)
           = replaceAll preMedical (join '' '' (map (\<lambda>(ms, w). romanDigit (toLowerCase w)) segs))"
proof -
  let ?ws = "map (\<lambda>(ms, w). toLowerCase w) segs"
  have low: "\<forall>w \<in> set ?ws. lowWord w"
    using assms by (auto simp: wellSpelled_def list_all_iff lowWord_toLowerCase)
  have s5: "replaceAll semesterRoman (join '' '' ?ws) = join '' '' (afterSemester ?ws)"
    unfolding replaceAll_def by (rule semester_words [OF low])
  have s6: "replaceAll standaloneRoman (join '' '' (afterSemester ?ws))
              = join '' '' (map romanDigit ?ws)"
    unfolding replaceAll_def
    using standalone_words [OF afterSemester_lowWord [OF low]] by (simp add: afterSemester_digits)
  have ws: "map romanDigit ?ws = map (\<lambda>(ms, w). romanDigit (toLowerCase w)) segs"
    by (simp add: case_prod_beta comp_def)
  show ?thesis
    unfolding normalizeSemKey_tokens [OF wellSpelled_words [OF assms]] s5 s6 ws ..
qed

subsection \<open>Pre-medical\<close>

lemma replaceAllFrom_same:
  "(\<forall>p u n rep. suffix u s \<longrightarrow> rx p u = Some (n, rep) \<longrightarrow> rep = take n u \<and> 0 < n \<and> n \<le> length u)
   \<Longrightarrow> k \<le> length s \<Longrightarrow> replaceAllFrom rx p k s = drop k s"
proof (induction s arbitrary: p k)
  case Nil
  show ?case by simp
next
  case (Cons c cs)
  have sub: "\<forall>p u n rep. suffix u cs \<longrightarrow> rx p u = Some (n, rep)
               \<longrightarrow> rep = take n u \<and> 0 < n \<and> n \<le> length u"
    using Cons.prems(1) by (simp add: suffix_Cons)
  show ?case
  proof (cases k)
    case (Suc k')
    with Cons.prems(2) have "k' \<le> length cs" by simp
    from Cons.IH [OF sub this] show ?thesis by (simp add: Suc)
  next
    case 0
    show ?thesis
    proof (cases "rx p (c # cs)")
      case None
      with Cons.IH [OF sub, of 0 "Some c"] show ?thesis by (simp add: 0)
    next
      case (Some m)
      obtain n rep where m: "m = (n, rep)" by (cases m)
      have self: "suffix (c # cs) (c # cs)" by simp
      from Cons.prems(1) self Some
      have "rep = take n (c # cs) \<and> 0 < n \<and> n \<le> length (c # cs)"
        unfolding m by blast
      then have r: "rep = take n (c # cs)" "0 < n" "n \<le> length (c # cs)" by blast+
      from r(2) obtain n' where n: "n = Suc n'" by (cases n) auto
      from r(3) have "n' \<le> length cs" by (simp add: n)
      from Cons.IH [OF sub this, of "Some c"] show ?thesis
        by (simp add: 0 Some m r(1) n)
    qed
  qed
qed

lemma suffix_tail:
  "suffix u (concat (map (\<lambda>w. CHR '' '' # w) ws)) \<Longrightarrow> \<forall>w \<in> set ws. lowWord w \<Longrightarrow>
   \<exists>w' ws'. u = w' @ concat (map (\<lambda>w. CHR '' '' # w) ws') \<and> list_all isWordChar w'
      \<and> (\<forall>w \<in> set ws'. lowWord w) \<and> (w' = [] \<or> (\<exists>w \<in> set ws. suffix w' w))"
proof (induction ws)
  case Nil
  then show ?case by (intro exI [of _ "[]"]) simp
next
  case (Cons v vs)
  let ?T = "\<lambda>ws. concat (map (\<lambda>w. CHR '' '' # w) ws)"
  from Cons.prems(1) have "suffix u (CHR '' '' # v @ ?T vs)" by simp
  then consider "u = CHR '' '' # v @ ?T vs" | "suffix u (?T vs)"
    | x where "u = x @ ?T vs" "suffix x v"
    by (auto simp: suffix_Cons suffix_append)
  then show ?case
  proof cases
    case 1
    show ?thesis
      using 1 Cons.prems(2) by (intro exI [of _ "[]"] exI [of _ "v # vs"]) simp
  next
    case 2
    from Cons.IH [OF 2] Cons.prems(2) obtain w' ws' where
      "u = w' @ ?T ws'" "list_all isWordChar w'" "\<forall>w \<in> set ws'. lowWord w"
      "w' = [] \<or> (\<exists>w \<in> set vs. suffix w' w)"
      by auto
    then show ?thesis by (intro exI [of _ w'] exI [of _ ws']) auto
  next
    case 3
    from 3(2) have "set x \<subseteq> set v" by (rule set_mono_suffix)
    with Cons.prems(2) have "list_all isWordChar x" by (auto simp: lowWord_def list_all_iff)
    with 3 Cons.prems(2) show ?thesis by (intro exI [of _ x] exI [of _ vs]) auto
  qed
qed

lemma suffix_join:
  assumes "suffix u (join '' '' ws)" and "\<forall>w \<in> set ws. lowWord w"
  shows "\<exists>w' ws'. u = w' @ concat (map (\<lambda>w. CHR '' '' # w) ws') \<and> list_all isWordChar w'
      \<and> (\<forall>w \<in> set ws'. lowWord w) \<and> (w' = [] \<or> (\<exists>w \<in> set ws. suffix w' w))"
proof (cases ws)
  case Nil
  with assms(1) show ?thesis by (intro exI [of _ "[]"]) simp
next
  case (Cons v vs)
  let ?T = "\<lambda>ws. concat (map (\<lambda>w. CHR '' '' # w) ws)"
  from assms(1) have "suffix u (v @ ?T vs)" by (simp add: Cons join_tail)
  then consider "suffix u (?T vs)" | x where "u = x @ ?T vs" "suffix x v"
    by (auto simp: suffix_append)
  then show ?thesis
  proof cases
    case 1
    from assms(2) have vs: "\<forall>w \<in> set vs. lowWord w" by (simp add: Cons)
    from suffix_tail [OF 1 vs] obtain w' ws' where
      "u = w' @ ?T ws'" "list_all isWordChar w'" "\<forall>w \<in> set ws'. lowWord w"
      "w' = [] \<or> (\<exists>w \<in> set vs. suffix w' w)"
      by auto
    then show ?thesis by (intro exI [of _ w'] exI [of _ ws']) (auto simp: Cons)
  next
    case 2
    from 2(2) have "set x \<subseteq> set v" by (rule set_mono_suffix)
    with assms(2) have "list_all isWordChar x" by (auto simp: Cons lowWord_def list_all_iff)
    with 2 assms(2) show ?thesis by (intro exI [of _ x] exI [of _ vs]) (auto simp: Cons)
  qed
qed

lemma prefix_in_word:
  assumes "t = [] \<or> (\<exists>t'. t = CHR '' '' # t')"
      and "take k (w @ t) = r" and "length r = k" and "CHR '' '' \<notin> set r"
  shows "\<exists>w'. w = r @ w'"
proof (cases "k \<le> length w")
  case True
  with assms(2) have "take k w = r" by simp
  then have "w = r @ drop k w" by (metis append_take_drop_id)
  then show ?thesis ..
next
  case False
  from assms(1) show ?thesis
  proof
    assume "t = []"
    with assms(2) have "length r = min (length w) k" by auto
    with False assms(3) show ?thesis by simp
  next
    assume "\<exists>t'. t = CHR '' '' # t'"
    then obtain t' where t: "t = CHR '' '' # t'" ..
    from False obtain m where m: "k - length w = Suc m"
      by (cases "k - length w") auto
    from False assms(2) have "w @ CHR '' '' # take m t' = r" by (simp add: t m)
    then have "CHR '' '' \<in> set r" by auto
    with assms(4) show ?thesis by simp
  qed
qed

lemma preMedical_other: "take 3 u \<noteq> ''pre'' \<Longrightarrow> preMedical p u = None"
  by (simp add: preMedical_def)

lemma preMedical_end: "preMedical p ''pre'' = None"
  by (simp add: preMedical_def)

lemma preMedical_word:
  "\<not> isSpace c \<Longrightarrow> c \<noteq> CHR ''-'' \<Longrightarrow>
   preMedical p (''pre'' @ c # s)
     = (if take 7 (c # s) = ''medical'' then Some (10, ''pre medical'') else None)"
  by (auto simp: preMedical_def Let_def)

lemma preMedical_space:
  "\<not> isSpace c \<Longrightarrow> c \<noteq> CHR ''-'' \<Longrightarrow>
   preMedical p (''pre '' @ c # s)
     = (if take 7 (c # s) = ''medical'' then Some (11, ''pre medical'') else None)"
  by (auto simp: preMedical_def Let_def isSpace_def)

lemma includesStr_infix: "includesStr (a @ n @ b) n"
proof (induction a)
  case Nil
  show ?case
  proof (cases "n @ b")
    case Nil
    then show ?thesis by simp
  next
    case (Cons c cs)
    have "prefix n (n @ b)" by simp
    then have "prefix n (c # cs)" by (simp only: Cons)
    then have "includesStr (c # cs) n" by simp
    then show ?thesis by (simp only: Cons append_Nil)
  qed
next
  case (Cons c a)
  then show ?case by simp
qed

lemma preMedical_single:
  assumes u: "u = w' @ concat (map (\<lambda>w. CHR '' '' # w) ws')"
      and w': "list_all isWordChar w'" and ws': "\<forall>w \<in> set ws'. lowWord w"
      and m: "preMedical p u = Some (n, rep)"
  shows "prefix ''premedical'' w' \<or> (rep = take n u \<and> 0 < n \<and> n \<le> length u)"
proof -
  let ?T = "concat (map (\<lambda>w. CHR '' '' # w) ws')"
  have "take 3 u = ''pre''"
  proof (rule ccontr)
    assume "take 3 u \<noteq> ''pre''"
    then have "preMedical p u = None" by (rule preMedical_other)
    with m show False by simp
  qed
  then have t3: "take 3 (w' @ ?T) = ''pre''" unfolding u .
  have "\<exists>w2. w' = ''pre'' @ w2"
    using tail_form [of ws'] t3 by (rule prefix_in_word) simp_all
  then obtain w2 where w2: "w' = ''pre'' @ w2" ..
  from w' have w2c: "list_all isWordChar w2" by (simp add: w2)
  show ?thesis
  proof (cases w2)
    case (Cons c cs)
    with w2c have "isWordChar c" by simp
    then have c: "\<not> isSpace c" "c \<noteq> CHR ''-''" using wordChar_plain by blast+
    have "u = ''pre'' @ c # (cs @ ?T)" by (simp add: u w2 Cons)
    with m have "preMedical p (''pre'' @ c # (cs @ ?T)) = Some (n, rep)" by simp
    then have "take 7 (c # (cs @ ?T)) = ''medical''"
      unfolding preMedical_word [OF c] by (simp split: if_splits)
    then have t7: "take 7 (w2 @ ?T) = ''medical''" by (simp only: Cons append_Cons)
    have "\<exists>w3. w2 = ''medical'' @ w3"
      using tail_form [of ws'] t7 by (rule prefix_in_word) simp_all
    then have "prefix ''premedical'' w'" by (auto simp: w2)
    then show ?thesis ..
  next
    case Nil
    show ?thesis
    proof (cases ws')
      case Nil
      have "u = ''pre''" by (simp add: u w2 \<open>w2 = []\<close> Nil)
      with m show ?thesis by (simp add: preMedical_end)
    next
      case (Cons v vs)
      from ws' have "lowWord v" by (simp add: Cons)
      from lowWord_hd [OF this] lowWord_chars [OF \<open>lowWord v\<close>]
      obtain c cs where v: "v = c # cs" "\<not> isSpace c" "isWordChar c" by auto
      then have c: "c \<noteq> CHR ''-''" using wordChar_plain by blast
      let ?rest = "cs @ concat (map (\<lambda>w. CHR '' '' # w) vs)"
      have uu: "u = ''pre '' @ c # ?rest" by (simp add: u w2 \<open>w2 = []\<close> Cons v)
      from m have "preMedical p (''pre '' @ c # ?rest) = Some (n, rep)" by (simp only: uu)
      then have t: "take 7 (c # ?rest) = ''medical''" and n: "n = 11" and rep: "rep = ''pre medical''"
        unfolding preMedical_space [OF v(2) c] by (simp_all split: if_splits)
      from t have "length (take 7 (c # ?rest)) = 7" by simp
      then have len: "7 \<le> length (c # ?rest)" by (simp only: length_take)
      have "take n u = ''pre '' @ take 7 (c # ?rest)" unfolding n uu by simp
      then have "take n u = ''pre '' @ ''medical''" by (simp only: t)
      moreover have "''pre '' @ ''medical'' = rep" unfolding rep by simp
      ultimately have tk: "take n u = rep" by (rule trans)
      have "length u = 4 + length (c # ?rest)" unfolding uu by simp
      with len have "n \<le> length u" unfolding n by linarith
      with tk n show ?thesis by simp
    qed
  qed
qed

lemma preMedical_words:
  assumes "\<forall>w \<in> set ws. lowWord w \<and> \<not> includesStr w ''premedical''"
  shows "replaceAll preMedical (join '' '' ws) = join '' '' ws"
proof -
  have "rep = take n u \<and> 0 < n \<and> n \<le> length u"
    if s: "suffix u (join '' '' ws)" and m: "preMedical p u = Some (n, rep)" for p u n rep
  proof -
    from assms have low: "\<forall>w \<in> set ws. lowWord w" by simp
    from suffix_join [OF s low] obtain w' ws' where
      u: "u = w' @ concat (map (\<lambda>w. CHR '' '' # w) ws')" and w': "list_all isWordChar w'"
      and ws': "\<forall>w \<in> set ws'. lowWord w" and src: "w' = [] \<or> (\<exists>w \<in> set ws. suffix w' w)"
      by blast
    have "\<not> prefix ''premedical'' w'"
    proof
      assume p: "prefix ''premedical'' w'"
      then have "w' \<noteq> []" by auto
      with src obtain w where w: "w \<in> set ws" "suffix w' w" by auto
      from p obtain b where "w' = ''premedical'' @ b" by (auto simp: prefix_def)
      moreover from w(2) obtain a where "w = a @ w'" by (auto simp: suffix_def)
      ultimately have "w = a @ ''premedical'' @ b" by simp
      then have "includesStr w ''premedical''" by (simp only: includesStr_infix)
      with assms w(1) show False by simp
    qed
    with preMedical_single [OF u w' ws' m] show ?thesis by simp
  qed
  then have "replaceAllFrom preMedical None 0 (join '' '' ws) = drop 0 (join '' '' ws)"
    by (intro replaceAllFrom_same) auto
  then show ?thesis by (simp add: replaceAll_def)
qed

lemma romanDigit_plain:
  assumes "lowWord w" and "\<not> includesStr w ''premedical''"
  shows "lowWord (romanDigit w) \<and> \<not> includesStr (romanDigit w) ''premedical''"
proof (cases "w \<in> set romanWords")
  case True
  then have "\<not> includesStr (romanDigit w) ''premedical''"
    by (auto simp: romanWords_def romanDigit_def)
  with True show ?thesis by (simp add: romanDigit_lowWord)
next
  case False
  with assms show ?thesis by (simp add: romanDigit_other)
qed

lemma normalizeSemKey_plain_words:
  assumes "wellSpelled isWord segs marks"
      and "list_all (\<lambda>(ms, w). \<not> includesStr (toLowerCase w) ''premedical'') segs"
  shows "normalizeSemKey (spell segs marks)
           = join '' '' (map (\<lambda>(ms, w). romanDigit (toLowerCase w)) segs)"
proof -
  have "\<forall>w \<in> set (map (\<lambda>(ms, w). romanDigit (toLowerCase w)) segs).
          lowWord w \<and> \<not> includesStr w ''premedical''"
    using assms romanDigit_plain lowWord_toLowerCase
    by (fastforce simp: wellSpelled_def list_all_iff)
  then show ?thesis
    unfolding normalizeSemKey_words [OF assms(1)] by (rule preMedical_words)
qed

subsection \<open>The spellings of pre-medical\<close>

lemma wordChar_of_lower: "isWordChar (lowerChar c) \<Longrightarrow> isWordChar c"
proof (cases "isUpper c")
  case True
  then show ?thesis by (simp add: isWordChar_def)
next
  case False
  assume "isWordChar (lowerChar c)"
  with False show ?thesis by (simp add: lowerChar_other)
qed

lemma word_of_lower:
  assumes "toLowerCase x = r" and "list_all isWordChar r" and "r \<noteq> []"
  shows "isWord x"
proof -
  from assms(1,3) have "x \<noteq> []" by (auto simp: toLowerCase_def)
  moreover from assms(1,2) have "list_all isWordChar x"
    by (auto simp: toLowerCase_def list_all_iff wordChar_of_lower)
  ultimately show ?thesis by (simp add: isWord_def)
qed

lemma preMedical_variants:
  assumes ms: "list_all isMark ms" and x: "toLowerCase x = ''pre''" and y: "toLowerCase y = ''medical''"
  shows "normalizeSemKey (x @ concat ms @ y) = ''pre medical''"
proof -
  have wx: "isWord x"
    using x by (rule word_of_lower) (simp_all add: isWordChar_def isLower_def)
  have wy: "isWord y"
    using y by (rule word_of_lower) (simp_all add: isWordChar_def isLower_def)
  have r1: "romanDigit ''pre'' = ''pre''" and r2: "romanDigit ''medical'' = ''medical''"
    and r3: "romanDigit ''premedical'' = ''premedical''"
    by (simp_all add: romanDigit_def)
  have p1: "replaceAll preMedical ''pre medical'' = ''pre medical''" by code_simp
  have p2: "replaceAll preMedical ''premedical'' = ''pre medical''" by code_simp
  show ?thesis
  proof (cases "ms = []")
    case True
    have w: "wellSpelled isWord [([], x @ y)] []"
      using wx wy by (simp add: wellSpelled_def isWord_def)
    have "normalizeSemKey (spell [([], x @ y)] []) = ''pre medical''"
      unfolding normalizeSemKey_words [OF w] by (simp add: toLowerCase_append x y r3 p2)
    then show ?thesis by (simp add: True spell_def)
  next
    case False
    have w: "wellSpelled isWord [([], x), (ms, y)] []"
      using wx wy ms False by (simp add: wellSpelled_def)
    have "normalizeSemKey (spell [([], x), (ms, y)] []) = ''pre medical''"
      unfolding normalizeSemKey_words [OF w] by (simp add: x y r1 r2 p1)
    then show ?thesis by (simp add: spell_def)
  qed
qed

subsection \<open>The characters of a key\<close>

lemma lowerChar_not_upper: "\<not> isUpper (lowerChar c)"
proof (cases "isUpper c")
  case True
  then have "isLower (lowerChar c)" by (rule upper_lower)
  then show ?thesis by (rule lower_not_upper)
next
  case False
  then show ?thesis by (simp add: lowerChar_other)
qed

lemma upper_of_lower: "upperChar (lowerChar c) = upperChar c"
proof (cases "isUpper c")
  case True
  then show ?thesis unfolding isUpper_def by (auto simp: lowerChar_def upperChar_def)
next
  case False
  then show ?thesis by (simp add: lowerChar_other)
qed

lemma replaceAllFrom_chars:
  assumes "\<forall>p u n rep. rx p u = Some (n, rep) \<longrightarrow> list_all Q rep"
  shows "list_all Q s \<Longrightarrow> list_all Q (replaceAllFrom rx p k s)"
proof (induction s arbitrary: p k)
  case Nil
  show ?case by simp
next
  case (Cons c cs)
  then have ih: "list_all Q (replaceAllFrom rx q j cs)" for q j by simp
  show ?case
  proof (cases k)
    case (Suc k')
    then show ?thesis by (simp add: ih)
  next
    case 0
    show ?thesis
    proof (cases "rx p (c # cs)")
      case None
      with Cons.prems show ?thesis by (simp add: 0 ih)
    next
      case (Some m)
      obtain n rep where m: "m = (n, rep)" by (cases m)
      from assms Some have "list_all Q rep" unfolding m by blast
      then show ?thesis by (simp add: 0 Some m ih)
    qed
  qed
qed

lemma oneDash_chars:
  "\<forall>c \<in> set s. \<not> isUpper c \<Longrightarrow>
   \<forall>c \<in> set (replaceAllFrom oneDash p k s). \<not> isUpper c \<and> c \<noteq> CHR ''-''"
proof (induction s arbitrary: p k)
  case Nil
  show ?case by simp
next
  case (Cons c cs)
  then have ih: "\<forall>c \<in> set (replaceAllFrom oneDash q j cs). \<not> isUpper c \<and> c \<noteq> CHR ''-''" for q j
    by simp
  have sp: "\<not> isUpper (CHR '' '')" by (simp add: isUpper_def)
  show ?case
  proof (cases k)
    case (Suc k')
    then show ?thesis using ih by simp
  next
    case 0
    show ?thesis
    proof (cases "oneDash p (c # cs)")
      case None
      then have "c \<noteq> CHR ''-''" by (auto simp: oneDash_def)
      with Cons.prems None ih show ?thesis by (simp add: 0)
    next
      case (Some m)
      then have "\<exists>n. m = (n, '' '')" by (auto simp: oneDash_def split: if_splits)
      then obtain n where m: "m = (n, '' '')" ..
      show ?thesis using ih sp by (simp add: 0 Some m)
    qed
  qed
qed

lemma collapse_chars:
  "\<forall>c \<in> set s. Q c \<Longrightarrow> Q (CHR '' '') \<Longrightarrow>
   \<forall>c \<in> set (replaceRunsFrom isSpace '' '' b s). Q c \<and> (isSpace c \<longrightarrow> c = CHR '' '')"
  by (induction s arbitrary: b) auto

lemma trim_subset: "set (trim s) \<subseteq> set s"
proof -
  have "set (dropWhile isSpace (rev (dropWhile isSpace s))) \<subseteq> set (rev (dropWhile isSpace s))"
    by (rule set_dropWhileD [THEN subsetI])
  also have "\<dots> \<subseteq> set s" using set_dropWhileD [of _ isSpace s] by auto
  finally show ?thesis by (simp add: trim_def)
qed

lemma find_holds: "find P xs = Some x \<Longrightarrow> P x \<and> x \<in> set xs"
  by (induction xs) (auto split: if_splits)

lemma romanNumeral_digit:
  assumes "romanNumeral s = Some r"
  shows "romanToInt r \<in> set [''1'', ''2'', ''3'', ''4'', ''5'']"
proof -
  let ?P = "\<lambda>r. toLowerCase (take (length r) s) = r \<and> boundaryAfter (drop (length r) s)"
  from assms have "map_option (\<lambda>r. take (length r) s) (find ?P romanWords) = Some r"
    by (simp only: romanNumeral_def romanWords_def)
  then obtain r0 where f: "find ?P romanWords = Some r0" and r: "r = take (length r0) s"
    by (cases "find ?P romanWords") simp_all
  from f have "?P r0" by (rule find_holds [THEN conjunct1])
  then have "toLowerCase (take (length r0) s) = r0" ..
  then have low: "toLowerCase r = r0" by (simp only: r)
  from f have r0: "r0 \<in> set romanWords" by (rule find_holds [THEN conjunct2])
  have "toUpperCase r = map upperChar (map lowerChar r)"
    by (simp add: toUpperCase_def upper_of_lower)
  also have "\<dots> = toUpperCase r0" using low by (simp add: toUpperCase_def toLowerCase_def)
  finally have up: "toUpperCase r = toUpperCase r0" .
  from r0 have "r0 \<noteq> []" by (auto simp: romanWords_def)
  with low have ne: "r \<noteq> []" by (auto simp: toLowerCase_def)
  from r0 have "r0 = ''iii'' \<or> r0 = ''ii'' \<or> r0 = ''i'' \<or> r0 = ''iv'' \<or> r0 = ''v''"
    by (simp add: romanWords_def)
  moreover have "toUpperCase ''iii'' = ''III''" "toUpperCase ''ii'' = ''II''" "toUpperCase ''i'' = ''I''"
    "toUpperCase ''iv'' = ''IV''" "toUpperCase ''v'' = ''V''"
    by (simp_all add: toUpperCase_def upperChar_def)
  ultimately have "toUpperCase r = ''III'' \<or> toUpperCase r = ''II'' \<or> toUpperCase r = ''I''
      \<or> toUpperCase r = ''IV'' \<or> toUpperCase r = ''V''"
    unfolding up by presburger
  then show ?thesis using ne by (auto simp: romanToInt_def Let_def)
qed

lemma keyChar_digits: "d \<in> set [''1'', ''2'', ''3'', ''4'', ''5''] \<Longrightarrow> list_all keyChar d"
  by (auto simp: keyChar_def isUpper_def isSpace_def)

lemma keyChar_semester: "list_all keyChar ''semester ''"
  by (simp add: keyChar_def isUpper_def isSpace_def)

lemma keyChar_preMedical: "list_all keyChar ''pre medical''"
  by (simp add: keyChar_def isUpper_def isSpace_def)

lemma semesterRoman_chars: "semesterRoman p u = Some (n, rep) \<Longrightarrow> list_all keyChar rep"
  using keyChar_semester
  by (auto simp: semesterRoman_def Let_def split: if_splits option.splits
           dest!: romanNumeral_digit keyChar_digits)

lemma standaloneRoman_chars: "standaloneRoman p u = Some (n, rep) \<Longrightarrow> list_all keyChar rep"
  by (auto simp: standaloneRoman_def split: if_splits option.splits
           dest!: romanNumeral_digit keyChar_digits)

lemma preMedical_chars: "preMedical p u = Some (n, rep) \<Longrightarrow> list_all keyChar rep"
  using keyChar_preMedical by (auto simp: preMedical_def Let_def split: if_splits)

lemma normalizeSemKey_chars: "list_all keyChar (normalizeSemKey name')"
proof (cases "name' = []")
  case True
  then show ?thesis by (simp add: normalizeSemKey_def)
next
  case False
  let ?s1 = "toLowerCase name'"
  let ?s2 = "replaceAll oneDash ?s1"
  let ?s3 = "map (\<lambda>c. if c \<in> set ''(),.:'' then CHR '' '' else c) ?s2"
  let ?s4 = "trim (replaceRuns isSpace '' '' ?s3)"
  have "\<forall>c \<in> set ?s1. \<not> isUpper c" by (simp add: toLowerCase_def lowerChar_not_upper)
  then have s2: "\<forall>c \<in> set ?s2. \<not> isUpper c \<and> c \<noteq> CHR ''-''"
    unfolding replaceAll_def by (rule oneDash_chars)
  have sp: "\<not> isUpper (CHR '' '')" by (simp add: isUpper_def)
  have s3: "\<forall>c \<in> set ?s3. \<not> isUpper c \<and> c \<notin> set ''-(),.:''"
    using s2 sp by auto
  have q: "\<not> isUpper (CHR '' '') \<and> CHR '' '' \<notin> set ''-(),.:''" by (simp add: isUpper_def)
  have "\<forall>c \<in> set (replaceRunsFrom isSpace '' '' False ?s3).
          (\<not> isUpper c \<and> c \<notin> set ''-(),.:'') \<and> (isSpace c \<longrightarrow> c = CHR '' '')"
    using s3 q by (rule collapse_chars)
  then have "\<forall>c \<in> set (replaceRuns isSpace '' '' ?s3). keyChar c"
    unfolding replaceRuns_def keyChar_def by blast
  with trim_subset have s4: "list_all keyChar ?s4" by (auto simp: list_all_iff)
  have s5: "list_all keyChar (replaceAll semesterRoman ?s4)"
    unfolding replaceAll_def [of semesterRoman] using s4 semesterRoman_chars
    by (intro replaceAllFrom_chars) blast+
  have s6: "list_all keyChar (replaceAll standaloneRoman (replaceAll semesterRoman ?s4))"
    unfolding replaceAll_def [of standaloneRoman] using s5 standaloneRoman_chars
    by (intro replaceAllFrom_chars) blast+
  have "list_all keyChar (replaceAll preMedical (replaceAll standaloneRoman (replaceAll semesterRoman ?s4)))"
    unfolding replaceAll_def [of preMedical] using s6 preMedical_chars
    by (intro replaceAllFrom_chars) blast+
  with False show ?thesis by (simp add: normalizeSemKey_def Let_def)
qed

subsection \<open>Every ASCII name is made of tokens and marks\<close>

lemma piece_cases: "isPiece t \<Longrightarrow> isMark t \<or> (\<exists>c. t = [c] \<and> plainChar c)"
proof -
  assume p: "isPiece t"
  show ?thesis
  proof (cases "t = enDash \<or> t = emDash")
    case True
    then show ?thesis by (auto simp: isMark_def)
  next
    case False
    with p have l: "length t = 1" and a: "isAscii (hd t)" by (simp_all add: isPiece_def)
    from l obtain c where t: "t = [c]" by (cases t) auto
    show ?thesis
    proof (cases "plainChar c")
      case True
      with t show ?thesis by blast
    next
      case False
      with a have "isMark [c]" by (auto simp: t isMark_def plainChar_def)
      with t show ?thesis by simp
    qed
  qed
qed

lemma every_name_spelled:
  "list_all isPiece pieces \<Longrightarrow>
   \<exists>segs marks. wellSpelled isToken segs marks \<and> spell segs marks = concat pieces"
proof (induction pieces)
  case Nil
  have "wellSpelled isToken [] [] \<and> spell [] [] = concat []"
    by (simp add: wellSpelled_def spell_def)
  then show ?case by blast
next
  case (Cons t pieces)
  from Cons.prems have t: "isPiece t" and ps: "list_all isPiece pieces" by simp_all
  from Cons.IH [OF ps] obtain segs marks where
    w: "wellSpelled isToken segs marks" and e: "spell segs marks = concat pieces"
    by blast
  from piece_cases [OF t] show ?case
  proof
    assume m: "isMark t"
    show ?thesis
    proof (cases segs)
      case Nil
      from w e m have "wellSpelled isToken [] (t # marks)
          \<and> spell [] (t # marks) = concat (t # pieces)"
        by (simp add: Nil wellSpelled_def spell_def)
      then show ?thesis by blast
    next
      case (Cons seg rest)
      obtain ms v where seg: "seg = (ms, v)" by (cases seg)
      from w e m have "wellSpelled isToken ((t # ms, v) # rest) marks
          \<and> spell ((t # ms, v) # rest) marks = concat (t # pieces)"
        by (simp add: Cons seg wellSpelled_def spell_def)
      then show ?thesis by blast
    qed
  next
    assume "\<exists>c. t = [c] \<and> plainChar c"
    then obtain c where tc: "t = [c]" and c: "plainChar c" by blast
    then have one: "isToken [c]" by (simp add: isToken_def)
    show ?thesis
    proof (cases segs)
      case Nil
      from w e one have "wellSpelled isToken [([], [c])] marks
          \<and> spell [([], [c])] marks = concat (t # pieces)"
        by (simp add: Nil tc wellSpelled_def spell_def)
      then show ?thesis by blast
    next
      case (Cons seg rest)
      obtain ms v where seg: "seg = (ms, v)" by (cases seg)
      show ?thesis
      proof (cases "ms = []")
        case False
        from w e one False have "wellSpelled isToken (([], [c]) # (ms, v) # rest) marks
            \<and> spell (([], [c]) # (ms, v) # rest) marks = concat (t # pieces)"
          by (simp add: Cons seg tc wellSpelled_def spell_def)
        then show ?thesis by blast
      next
        case True
        from w c have "wellSpelled isToken (([], c # v) # rest) marks"
          by (simp add: Cons seg True wellSpelled_def isToken_def)
        moreover from e have "spell (([], c # v) # rest) marks = concat (t # pieces)"
          by (simp add: Cons seg True tc spell_def)
        ultimately show ?thesis by blast
      qed
    qed
  qed
qed

lemma key_a: "normalizeSemKey ''Semester-2'' = ''semester 2''"
  by code_simp

lemma key_b: "normalizeSemKey ''Semester II'' = ''semester 2''"
  by code_simp

lemma matchKey_normalized:
  assumes "map_of sheetMap scrapedName = None"
      and "find (\<lambda>k. normalizeSemKey k = normalizeSemKey scrapedName) (map fst sheetMap) = Some k"
      and "k \<noteq> []"
  shows "matchKey sheetMap scrapedName = Some k"
  using assms by (simp add: matchKey_def Let_def falsy_def)

text \<open>
  C4. \<open>normalizeSemKey\<close> maps \<open>Semester-2\<close> and \<open>Semester II\<close> to the same key,
  \<open>semester 2\<close>. Every name of ASCII characters, en dashes and em dashes is a sequence
  of tokens and marks (white space and the punctuation marks \<open>-\<close>, en dash, em dash,
  \<open>(\<close>, \<open>)\<close>, \<open>,\<close>, \<open>.\<close>, \<open>:\<close>), and its key is made of its tokens in lower case, joined by
  single spaces, by the three last replacements (the numerals after the word semester,
  the numerals alone, pre-medical). When the
  tokens are words, the key is the words in lower case, the Roman numerals I to V among
  them written as digits, joined by single spaces, with the spellings of pre-medical
  unified; when no word contains \<open>premedical\<close> that last step changes nothing. A numeral
  inside a longer word is not a numeral. The words \<open>pre\<close> and \<open>medical\<close>, in any case,
  with any marks or nothing between them, give the key \<open>pre medical\<close>. The key of any
  name has no capital letter A to Z, none of the marks \<open>-\<close>, \<open>(\<close>, \<open>)\<close>, \<open>,\<close>, \<open>.\<close>, \<open>:\<close> and
  no white space other than the space character. A live term named \<open>Semester-2\<close> is
  matched with the first reference term whose key is \<open>semester 2\<close> when no reference
  term has its very name; and a live term \<open>Semester-2\<close> and a reference term
  \<open>Semester II\<close> give a report of one entry, the comparison of the two.
\<close>

theorem semester_names_match:
  "normalizeSemKey ''Semester-2'' = ''semester 2''
   \<and> normalizeSemKey ''Semester II'' = ''semester 2''
   \<and> (wellSpelled isToken segs marks \<longrightarrow>
        normalizeSemKey (spell segs marks)
          = replaceAll preMedical (replaceAll standaloneRoman (replaceAll semesterRoman
              (join '' '' (map (\<lambda>(ms, w). toLowerCase w) segs)))))
   \<and> (list_all isPiece pieces \<longrightarrow>
        (\<exists>tokens trailing. wellSpelled isToken tokens trailing
                           \<and> spell tokens trailing = concat pieces))
   \<and> (wellSpelled isWord segs marks \<longrightarrow>
        normalizeSemKey (spell segs marks)
          = replaceAll preMedical (join '' '' (map (\<lambda>(ms, w). romanDigit (toLowerCase w)) segs)))
   \<and> (wellSpelled isWord segs marks
        \<and> list_all (\<lambda>(ms, w). \<not> includesStr (toLowerCase w) ''premedical'') segs \<longrightarrow>
        normalizeSemKey (spell segs marks)
          = join '' '' (map (\<lambda>(ms, w). romanDigit (toLowerCase w)) segs))
   \<and> (list_all isMark ms \<and> toLowerCase x = ''pre'' \<and> toLowerCase y = ''medical'' \<longrightarrow>
        normalizeSemKey (x @ concat ms @ y) = ''pre medical'')
   \<and> list_all keyChar (normalizeSemKey name')
   \<and> map normalizeSemKey [''Semester I'', ''Semester ii'', ''SEMESTER III'', ''Semester  IV'', ''Semester V'']
       = [''semester 1'', ''semester 2'', ''semester 3'', ''semester 4'', ''semester 5'']
   \<and> map normalizeSemKey [''I'', ''Part II'', ''iii'', ''(IV)'', ''Group V:'']
       = [''1'', ''part 2'', ''3'', ''4'', ''group 5'']
   \<and> map normalizeSemKey [''Pre-Medical'', ''pre medical'', ''Pre- medical'', ''premedical'']
       = [''pre medical'', ''pre medical'', ''pre medical'', ''pre medical'']
   \<and> normalizeSemKey ''  Semester (2),  Part: 1.'' = ''semester 2 part 1''
   \<and> map normalizeSemKey [''Semester'' @ enDash @ ''II'', ''Semester '' @ emDash @ '' iv'',
                           ''Web Dev'', ''Civil IV'', ''Vision (V)'', ''Semester VI'',
                           ''Pre Engineering (Semester-I)'']
       = [''semester 2'', ''semester 4'', ''web dev'', ''civil 4'', ''vision 5'', ''semester vi'',
          ''pre engineering semester 1'']
   \<and> (map_of sheetMap ''Semester-2'' = None
        \<and> find (\<lambda>k. normalizeSemKey k = ''semester 2'') (map fst sheetMap) = Some ''Semester II''
       \<longrightarrow> matchKey sheetMap ''Semester-2'' = Some ''Semester II'')
   \<and> buildReport pa [\<lparr>name = ''Semester-2'', courses = liveCourses\<rparr>]
                     [\<lparr>name = ''Semester II'', courses = referenceCourses\<rparr>]
       = (let ds = compareSemesters pa
                     \<lparr>name = ''Semester-2'', courses = liveCourses\<rparr>
                     \<lparr>name = ''Semester II'',
                      courses = Some (coursesOf \<lparr>name = ''Semester II'', courses = referenceCourses\<rparr>)\<rparr>
          in [\<lparr>reportEntry.name = ''Semester-2'', validKey = ''Semester II'',
               diffCount = length ds, diffs = ds\<rparr>])"
proof (intro conjI impI)
  show "normalizeSemKey ''Semester-2'' = ''semester 2''" by (rule key_a)
  show "normalizeSemKey ''Semester II'' = ''semester 2''" by (rule key_b)
  show "normalizeSemKey (spell segs marks)
          = replaceAll preMedical (replaceAll standaloneRoman (replaceAll semesterRoman
              (join '' '' (map (\<lambda>(ms, w). toLowerCase w) segs))))"
    if "wellSpelled isToken segs marks"
    using that by (rule normalizeSemKey_tokens)
  show "\<exists>tokens trailing. wellSpelled isToken tokens trailing \<and> spell tokens trailing = concat pieces"
    if "list_all isPiece pieces"
    using that by (rule every_name_spelled)
  show "normalizeSemKey (spell segs marks)
          = replaceAll preMedical (join '' '' (map (\<lambda>(ms, w). romanDigit (toLowerCase w)) segs))"
    if "wellSpelled isWord segs marks"
    using that by (rule normalizeSemKey_words)
  show "normalizeSemKey (spell segs marks)
          = join '' '' (map (\<lambda>(ms, w). romanDigit (toLowerCase w)) segs)"
    if "wellSpelled isWord segs marks
        \<and> list_all (\<lambda>(ms, w). \<not> includesStr (toLowerCase w) ''premedical'') segs"
    using that by (intro normalizeSemKey_plain_words) simp_all
  show "normalizeSemKey (x @ concat ms @ y) = ''pre medical''"
    if "list_all isMark ms \<and> toLowerCase x = ''pre'' \<and> toLowerCase y = ''medical''"
    using that by (intro preMedical_variants) simp_all
  show "list_all keyChar (normalizeSemKey name')" by (rule normalizeSemKey_chars)
  show "map normalizeSemKey [''Semester I'', ''Semester ii'', ''SEMESTER III'', ''Semester  IV'', ''Semester V'']
       = [''semester 1'', ''semester 2'', ''semester 3'', ''semester 4'', ''semester 5'']"
    by code_simp
  show "map normalizeSemKey [''I'', ''Part II'', ''iii'', ''(IV)'', ''Group V:'']
       = [''1'', ''part 2'', ''3'', ''4'', ''group 5'']"
    by code_simp
  show "map normalizeSemKey [''Pre-Medical'', ''pre medical'', ''Pre- medical'', ''premedical'']
       = [''pre medical'', ''pre medical'', ''pre medical'', ''pre medical'']"
    by code_simp
  show "normalizeSemKey ''  Semester (2),  Part: 1.'' = ''semester 2 part 1''"
    by code_simp
  show "map normalizeSemKey [''Semester'' @ enDash @ ''II'', ''Semester '' @ emDash @ '' iv'',
                           ''Web Dev'', ''Civil IV'', ''Vision (V)'', ''Semester VI'',
                           ''Pre Engineering (Semester-I)'']
       = [''semester 2'', ''semester 4'', ''web dev'', ''civil 4'', ''vision 5'', ''semester vi'',
          ''pre engineering semester 1'']"
    by code_simp
  show "matchKey sheetMap ''Semester-2'' = Some ''Semester II''"
    if "map_of sheetMap ''Semester-2'' = None
        \<and> find (\<lambda>k. normalizeSemKey k = ''semester 2'') (map fst sheetMap) = Some ''Semester II''"
    using that by (intro matchKey_normalized) (simp_all add: key_a)
  let ?ref = "\<lparr>name = ''Semester II'',
               courses = Some (coursesOf \<lparr>name = ''Semester II'', courses = referenceCourses\<rparr>)\<rparr>"
  have m: "buildSheetSemesterMap [\<lparr>name = ''Semester II'', courses = referenceCourses\<rparr>]
             = [(''Semester II'', ?ref)]"
    by (simp add: buildSheetSemesterMap_def Let_def coursesOf_def)
  have k: "matchKey [(''Semester II'', ?ref)] ''Semester-2'' = Some ''Semester II''"
    by (rule matchKey_normalized) (simp_all add: key_a key_b)
  show "buildReport pa [\<lparr>name = ''Semester-2'', courses = liveCourses\<rparr>]
                     [\<lparr>name = ''Semester II'', courses = referenceCourses\<rparr>]
       = (let ds = compareSemesters pa \<lparr>name = ''Semester-2'', courses = liveCourses\<rparr> ?ref
          in [\<lparr>reportEntry.name = ''Semester-2'', validKey = ''Semester II'',
               diffCount = length ds, diffs = ds\<rparr>])"
    unfolding buildReport_def m by (simp add: Let_def k falsy_def orEmpty_def)
qed

theorem semester_names_match_witness:
  "map_of [(''Semester II'', referenceTerm)] ''Semester-2'' = None
   \<and> find (\<lambda>k. normalizeSemKey k = ''semester 2'') (map fst [(''Semester II'', referenceTerm)])
       = Some ''Semester II''
   \<and> matchKey [(''Semester II'', referenceTerm)] ''Semester-2'' = Some ''Semester II''
   \<and> wellSpelled isWord exampleName exampleMarks
   \<and> list_all (\<lambda>(ms, w). \<not> includesStr (toLowerCase w) ''premedical'') exampleName
   \<and> spell exampleName exampleMarks = ''Semester'' @ enDash @ ''II (Part: iv).''
   \<and> normalizeSemKey (spell exampleName exampleMarks)
       = join '' '' (map (\<lambda>(ms, w). romanDigit (toLowerCase w)) exampleName)
   \<and> join '' '' (map (\<lambda>(ms, w). romanDigit (toLowerCase w)) exampleName) = ''semester 2 part 4''
   \<and> wellSpelled isToken exampleTokens []
   \<and> spell exampleTokens [] = '' R&D'' @ emDash @ '' Group-I/II''
   \<and> normalizeSemKey (spell exampleTokens [])
       = replaceAll preMedical (replaceAll standaloneRoman (replaceAll semesterRoman
           (join '' '' (map (\<lambda>(ms, w). toLowerCase w) exampleTokens))))
   \<and> replaceAll preMedical (replaceAll standaloneRoman (replaceAll semesterRoman
           (join '' '' (map (\<lambda>(ms, w). toLowerCase w) exampleTokens)))) = ''r&d group 1/2''
   \<and> list_all isMark [''-'', '' ''] \<and> toLowerCase ''Pre'' = ''pre''
   \<and> toLowerCase ''MEDICAL'' = ''medical''
   \<and> normalizeSemKey (''Pre'' @ concat [''-'', '' ''] @ ''MEDICAL'') = ''pre medical''
   \<and> list_all isPiece [''B'', ''.'', ''S'', '' '', enDash, ''I'']
   \<and> (\<exists>tokens trailing. wellSpelled isToken tokens trailing
         \<and> spell tokens trailing = concat [''B'', ''.'', ''S'', '' '', enDash, ''I''])"
proof -
  have h1: "map_of [(''Semester II'', referenceTerm)] ''Semester-2'' = None" by simp
  have h2: "find (\<lambda>k. normalizeSemKey k = ''semester 2'') (map fst [(''Semester II'', referenceTerm)])
       = Some ''Semester II''"
    by code_simp
  have h3: "wellSpelled isWord exampleName exampleMarks" by code_simp
  have h4: "list_all (\<lambda>(ms, w). \<not> includesStr (toLowerCase w) ''premedical'') exampleName"
    by code_simp
  have h5: "list_all isMark [''-'', '' '']" by code_simp
  have h6: "toLowerCase ''Pre'' = ''pre''" by code_simp
  have h7: "toLowerCase ''MEDICAL'' = ''medical''" by code_simp
  have h8: "wellSpelled isToken exampleTokens []" by code_simp
  have e1: "spell exampleName exampleMarks = ''Semester'' @ enDash @ ''II (Part: iv).''"
    by code_simp
  have e2: "join '' '' (map (\<lambda>(ms, w). romanDigit (toLowerCase w)) exampleName) = ''semester 2 part 4''"
    by code_simp
  have e3: "spell exampleTokens [] = '' R&D'' @ emDash @ '' Group-I/II''" by code_simp
  have e4: "replaceAll preMedical (replaceAll standaloneRoman (replaceAll semesterRoman
           (join '' '' (map (\<lambda>(ms, w). toLowerCase w) exampleTokens)))) = ''r&d group 1/2''"
    by code_simp
  have h9: "list_all isPiece [''B'', ''.'', ''S'', '' '', enDash, ''I'']" by code_simp
  note t = semester_names_match [where sheetMap = "[(''Semester II'', referenceTerm)]"
      and segs = exampleName and marks = exampleMarks
      and ms = "[''-'', '' '']" and x = "''Pre''" and y = "''MEDICAL''"]
  note tokens = semester_names_match [where segs = exampleTokens and marks = "[]",
      THEN conjunct2, THEN conjunct2, THEN conjunct1]
  note pieces = semester_names_match [where pieces = "[''B'', ''.'', ''S'', '' '', enDash, ''I'']",
      THEN conjunct2, THEN conjunct2, THEN conjunct2, THEN conjunct1]
  note words = t [THEN conjunct2, THEN conjunct2, THEN conjunct2, THEN conjunct2, THEN conjunct2,
      THEN conjunct1]
  note variants = t [THEN conjunct2, THEN conjunct2, THEN conjunct2, THEN conjunct2, THEN conjunct2,
      THEN conjunct2, THEN conjunct1]
  note matching = t [THEN conjunct2, THEN conjunct2, THEN conjunct2, THEN conjunct2, THEN conjunct2,
      THEN conjunct2, THEN conjunct2, THEN conjunct2, THEN conjunct2, THEN conjunct2,
      THEN conjunct2, THEN conjunct2, THEN conjunct2, THEN conjunct1]
  from h1 h2 have "map_of [(''Semester II'', referenceTerm)] ''Semester-2'' = None
        \<and> find (\<lambda>k. normalizeSemKey k = ''semester 2'') (map fst [(''Semester II'', referenceTerm)])
            = Some ''Semester II''"
    by (rule conjI)
  with matching have a: "matchKey [(''Semester II'', referenceTerm)] ''Semester-2'' = Some ''Semester II''"
    by (rule mp)
  from h3 h4 have "wellSpelled isWord exampleName exampleMarks
        \<and> list_all (\<lambda>(ms, w). \<not> includesStr (toLowerCase w) ''premedical'') exampleName"
    by (rule conjI)
  with words have b: "normalizeSemKey (spell exampleName exampleMarks)
       = join '' '' (map (\<lambda>(ms, w). romanDigit (toLowerCase w)) exampleName)"
    by (rule mp)
  from tokens h8 have d: "normalizeSemKey (spell exampleTokens [])
       = replaceAll preMedical (replaceAll standaloneRoman (replaceAll semesterRoman
           (join '' '' (map (\<lambda>(ms, w). toLowerCase w) exampleTokens))))"
    by (rule mp)
  from h5 h6 h7 have "list_all isMark [''-'', '' ''] \<and> toLowerCase ''Pre'' = ''pre''
        \<and> toLowerCase ''MEDICAL'' = ''medical''"
    by (intro conjI)
  with variants have c: "normalizeSemKey (''Pre'' @ concat [''-'', '' ''] @ ''MEDICAL'') = ''pre medical''"
    by (rule mp)
  from pieces h9 have f: "\<exists>tokens trailing. wellSpelled isToken tokens trailing
         \<and> spell tokens trailing = concat [''B'', ''.'', ''S'', '' '', enDash, ''I'']"
    by (rule mp)
  from h1 h2 a h3 h4 e1 b e2 h8 e3 d e4 h5 h6 h7 c h9 f show ?thesis by (intro conjI)
qed

section \<open>Strategy B\<close>

lemma method2_select:
  "method2 ts semesters
     = semesters @ map tableSemester (selectTables (map scrapedSemester.name semesters) ts)"
proof (induction ts arbitrary: semesters)
  case Nil
  show ?case by simp
next
  case (Cons t ts)
  show ?case
    by (simp add: Let_def Cons.IH tableName_def [symmetric] tableSemester_def [symmetric])
       (auto simp: tableSemester_def image_iff)
qed

lemma selectTables_subseq: "subseq (selectTables seen ts) ts"
  by (induction ts arbitrary: seen) (auto simp: list_emb_Cons)

lemma selectTables_eligible:
  "t \<in> set (selectTables seen ts) \<Longrightarrow> hasSemester (tableName t) \<and> tableName t \<notin> set seen"
proof (induction ts arbitrary: seen)
  case Nil
  then show ?case by simp
next
  case (Cons u ts)
  show ?case
  proof (cases "hasSemester (tableName u) \<and> tableName u \<notin> set seen")
    case True
    with Cons.prems have "t = u \<or> t \<in> set (selectTables (seen @ [tableName u]) ts)" by simp
    then show ?thesis
    proof
      assume "t = u"
      with True show ?thesis by simp
    next
      assume "t \<in> set (selectTables (seen @ [tableName u]) ts)"
      from Cons.IH [OF this] show ?thesis by simp
    qed
  next
    case False
    with Cons.prems have "t \<in> set (selectTables seen ts)" by auto
    from Cons.IH [OF this] show ?thesis .
  qed
qed

lemma selectTables_distinct: "distinct (map tableName (selectTables seen ts))"
proof (induction ts arbitrary: seen)
  case Nil
  show ?case by simp
next
  case (Cons t ts)
  have "tableName t \<notin> tableName ` set (selectTables (seen @ [tableName t]) ts)"
  proof
    assume "tableName t \<in> tableName ` set (selectTables (seen @ [tableName t]) ts)"
    then obtain u where u: "u \<in> set (selectTables (seen @ [tableName t]) ts)"
      and eq: "tableName t = tableName u" by auto
    from selectTables_eligible [OF u] eq show False by simp
  qed
  then show ?case using Cons by simp
qed

lemma selectTables_covers:
  "t \<in> set ts \<Longrightarrow> hasSemester (tableName t) \<Longrightarrow> tableName t \<notin> set seen \<Longrightarrow>
   tableName t \<in> tableName ` set (selectTables seen ts)"
proof (induction ts arbitrary: seen)
  case Nil
  then show ?case by simp
next
  case (Cons u ts)
  show ?case
  proof (cases "hasSemester (tableName u) \<and> tableName u \<notin> set seen")
    case True
    show ?thesis
    proof (cases "tableName t = tableName u")
      case same: True
      then show ?thesis using True by simp
    next
      case False
      with Cons.prems True have "t \<in> set ts" "tableName t \<notin> set (seen @ [tableName u])" by auto
      from Cons.IH [OF this(1) Cons.prems(2) this(2)] True show ?thesis by simp
    qed
  next
    case False
    with Cons.prems have "t \<in> set ts" by auto
    from Cons.IH [OF this Cons.prems(2,3)] False show ?thesis by auto
  qed
qed

lemma selectTables_first:
  "t \<in> set (selectTables seen ts) \<Longrightarrow> find (\<lambda>u. tableName u = tableName t) ts = Some t"
proof (induction ts arbitrary: seen)
  case Nil
  then show ?case by simp
next
  case (Cons u ts)
  show ?case
  proof (cases "hasSemester (tableName u) \<and> tableName u \<notin> set seen")
    case True
    show ?thesis
    proof (cases "t = u")
      case same: True
      then show ?thesis by simp
    next
      case False
      with Cons.prems True have t: "t \<in> set (selectTables (seen @ [tableName u]) ts)" by simp
      then have "tableName t \<noteq> tableName u" using selectTables_eligible [OF t] by auto
      with Cons.IH [OF t] show ?thesis by simp
    qed
  next
    case False
    with Cons.prems have t: "t \<in> set (selectTables seen ts)" by auto
    from selectTables_eligible [OF t] False have "tableName t \<noteq> tableName u" by auto
    with Cons.IH [OF t] show ?thesis by simp
  qed
qed

lemma method2_selection:
  "\<exists>selected.
     method2 ts semesters = semesters @ map tableSemester selected
     \<and> subseq selected ts
     \<and> (\<forall>t \<in> set selected. hasSemester (tableName t)
           \<and> tableName t \<notin> scrapedSemester.name ` set semesters
           \<and> find (\<lambda>u. tableName u = tableName t) ts = Some t)
     \<and> distinct (map tableName selected)
     \<and> (\<forall>t \<in> set ts. hasSemester (tableName t)
           \<and> tableName t \<notin> scrapedSemester.name ` set semesters
           \<longrightarrow> tableName t \<in> tableName ` set selected)"
proof -
  let ?sel = "selectTables (map scrapedSemester.name semesters) ts"
  have 1: "method2 ts semesters = semesters @ map tableSemester ?sel" by (rule method2_select)
  have 2: "subseq ?sel ts" by (rule selectTables_subseq)
  have 3: "\<forall>t \<in> set ?sel. hasSemester (tableName t)
           \<and> tableName t \<notin> scrapedSemester.name ` set semesters
           \<and> find (\<lambda>u. tableName u = tableName t) ts = Some t"
    using selectTables_eligible [of _ "map scrapedSemester.name semesters" ts]
          selectTables_first [of _ "map scrapedSemester.name semesters" ts] by auto
  have 4: "distinct (map tableName ?sel)" by (rule selectTables_distinct)
  have 5: "\<forall>t \<in> set ts. hasSemester (tableName t)
           \<and> tableName t \<notin> scrapedSemester.name ` set semesters
           \<longrightarrow> tableName t \<in> tableName ` set ?sel"
    using selectTables_covers [of _ ts "map scrapedSemester.name semesters"] by auto
  from 1 2 3 4 5 show ?thesis by blast
qed

text \<open>
  C7 (as amended). \<open>extractSemesters\<close> appends to the terms of Strategy A the terms of
  the selected tables, in document order, each made of the table's body rows. A table
  is selected when its first header cell has the word semester, its name is not the
  name of a Strategy A term and no table before it has the same name: the selected
  tables have different names, and every table with a semester header whose name
  Strategy A did not produce has a selected table of its name. (Strategy C runs when
  neither strategy gave a term.)
\<close>

theorem strategy_B_selection:
  "\<exists>selected.
     extractSemesters doc =
       (if method1 (headings doc) [] = [] \<and> selected = [] then method3 (tables doc) 1 []
        else method1 (headings doc) [] @ map tableSemester selected)
     \<and> subseq selected (tables doc)
     \<and> (\<forall>t \<in> set selected. hasSemester (tableName t)
           \<and> tableName t \<notin> scrapedSemester.name ` set (method1 (headings doc) [])
           \<and> find (\<lambda>u. tableName u = tableName t) (tables doc) = Some t)
     \<and> distinct (map tableName selected)
     \<and> (\<forall>t \<in> set (tables doc). hasSemester (tableName t)
           \<and> tableName t \<notin> scrapedSemester.name ` set (method1 (headings doc) [])
           \<longrightarrow> tableName t \<in> tableName ` set selected)"
proof -
  obtain selected where
    m: "method2 (tables doc) (method1 (headings doc) [])
          = method1 (headings doc) [] @ map tableSemester selected"
    and rest: "subseq selected (tables doc)"
      "\<forall>t \<in> set selected. hasSemester (tableName t)
           \<and> tableName t \<notin> scrapedSemester.name ` set (method1 (headings doc) [])
           \<and> find (\<lambda>u. tableName u = tableName t) (tables doc) = Some t"
      "distinct (map tableName selected)"
      "\<forall>t \<in> set (tables doc). hasSemester (tableName t)
           \<and> tableName t \<notin> scrapedSemester.name ` set (method1 (headings doc) [])
           \<longrightarrow> tableName t \<in> tableName ` set selected"
    using method2_selection [of "tables doc" "method1 (headings doc) []"] by blast
  have "extractSemesters doc =
       (if method2 (tables doc) (method1 (headings doc) []) = [] then method3 (tables doc) 1 []
        else method2 (tables doc) (method1 (headings doc) []))"
    by (auto simp: extractSemesters_def Let_def)
  then have "extractSemesters doc =
       (if method1 (headings doc) [] = [] \<and> selected = [] then method3 (tables doc) 1 []
        else method1 (headings doc) [] @ map tableSemester selected)"
    unfolding m by simp
  with rest show ?thesis by blast
qed

theorem strategy_B_selection_witness:
  "extractSemesters exampleDocument =
     [\<lparr>scrapedSemester.name = ''Semester 1'',
       courses = [\<lparr>parsedCourse.serial = Some ''1'', code = Some ''CS101'',
                   title = Some ''Programming Fundamentals'', credits = Some (CreditString ''3''),
                   prerequisite = None\<rparr>]\<rparr>,
      tableSemester firstTable]
   \<and> (\<exists>selected.
     extractSemesters exampleDocument =
       (if method1 (headings exampleDocument) [] = [] \<and> selected = []
        then method3 (tables exampleDocument) 1 []
        else method1 (headings exampleDocument) [] @ map tableSemester selected)
     \<and> subseq selected (tables exampleDocument)
     \<and> (\<forall>t \<in> set selected. hasSemester (tableName t)
           \<and> tableName t \<notin> scrapedSemester.name ` set (method1 (headings exampleDocument) [])
           \<and> find (\<lambda>u. tableName u = tableName t) (tables exampleDocument) = Some t)
     \<and> distinct (map tableName selected)
     \<and> (\<forall>t \<in> set (tables exampleDocument). hasSemester (tableName t)
           \<and> tableName t \<notin> scrapedSemester.name ` set (method1 (headings exampleDocument) [])
           \<longrightarrow> tableName t \<in> tableName ` set selected))"
proof
  show "extractSemesters exampleDocument =
     [\<lparr>scrapedSemester.name = ''Semester 1'',
       courses = [\<lparr>parsedCourse.serial = Some ''1'', code = Some ''CS101'',
                   title = Some ''Programming Fundamentals'', credits = Some (CreditString ''3''),
                   prerequisite = None\<rparr>]\<rparr>,
      tableSemester firstTable]"
    by code_simp
qed (rule strategy_B_selection)

text \<open>
  C7 as stated parses every semester-header table whose name Strategy A did not
  produce. The second of two tables named \<open>Semester 3\<close> is not parsed.
\<close>

theorem strategy_B_selection_counterexample:
  "secondTable \<in> set (tables exampleDocument)
   \<and> hasSemester (tableName secondTable)
   \<and> tableName secondTable \<notin> scrapedSemester.name ` set (method1 (headings exampleDocument) [])
   \<and> tableSemester secondTable \<notin> set (extractSemesters exampleDocument)"
  by code_simp

end
